theory Spec2Isabelle
  imports Main "HOL-Library.Sublist"
begin

section \<open>The document tree and the library calls of load.go\<close>

text \<open>
  load.go works on the tree that soup.HTMLParse returns for the HTML that goldmark
  wrote. The markdown converter and the HTML parser are libraries: the model starts from
  the parsed tree. A tree node is an element (tag, attributes in source order, children),
  a text node or a comment.
\<close>

datatype node =
    Element string "(string \<times> string) list" "node list"
  | TextNode string
  | CommentNode string

fun isElement :: "node \<Rightarrow> bool" where
  "isElement (Element _ _ _) = True"
| "isElement _ = False"

fun nodeData :: "node \<Rightarrow> string" where
  "nodeData (Element t _ _) = t"
| "nodeData (TextNode d) = d"
| "nodeData (CommentNode d) = d"

fun nodeAttr :: "node \<Rightarrow> (string \<times> string) list" where
  "nodeAttr (Element _ as _) = as"
| "nodeAttr _ = []"

fun nodeChildren :: "node \<Rightarrow> node list" where
  "nodeChildren (Element _ _ cs) = cs"
| "nodeChildren _ = []"

text \<open>
  A soup.Root with a non-nil Pointer is a position in a list of siblings: the node, the
  siblings before it (the nearest first) and the siblings after it. The code never
  climbs to a parent, so one level is enough. The Root that soup returns when there is
  no sibling (Pointer nil, NodeValue "") is \<open>None\<close>.
\<close>

datatype loc = Loc (prevs: "node list") (cur: node) (nexts: "node list")

type_synonym root = "loc option"

fun NodeValue :: "root \<Rightarrow> string" where
  "NodeValue None = []"
| "NodeValue (Some e) = nodeData (cur e)"

text \<open>
  FindNextElementSibling and FindPrevElementSibling step over the siblings that are not
  elements; with no sibling left they return the nil Root.
\<close>

fun nextElementFrom :: "node list \<Rightarrow> node \<Rightarrow> node list \<Rightarrow> root" where
  "nextElementFrom ps c [] = None"
| "nextElementFrom ps c (n # ns) =
     (if isElement n then Some (Loc (c # ps) n ns) else nextElementFrom (c # ps) n ns)"

definition FindNextElementSibling :: "loc \<Rightarrow> root" where
  "FindNextElementSibling e = nextElementFrom (prevs e) (cur e) (nexts e)"

fun prevElementFrom :: "node list \<Rightarrow> node \<Rightarrow> node list \<Rightarrow> root" where
  "prevElementFrom [] c ns = None"
| "prevElementFrom (p # ps) c ns =
     (if isElement p then Some (Loc ps p (c # ns)) else prevElementFrom ps p (c # ns))"

definition FindPrevElementSibling :: "loc \<Rightarrow> root" where
  "FindPrevElementSibling e = prevElementFrom (prevs e) (cur e) (nexts e)"

text \<open>
  FindAll walks the descendants in document order (a node before its children, the
  children left to right) and keeps the elements with the tag; the node it starts from
  is not tested. \<open>descendants\<close> takes the test on the tag as a predicate.
\<close>

fun descendants :: "(string \<Rightarrow> bool) \<Rightarrow> node \<Rightarrow> loc list"
  and descendantsFrom :: "(string \<Rightarrow> bool) \<Rightarrow> node list \<Rightarrow> node list \<Rightarrow> loc list" where
  "descendants P (Element _ _ cs) = descendantsFrom P [] cs"
| "descendants P (TextNode _) = []"
| "descendants P (CommentNode _) = []"
| "descendantsFrom P ps [] = []"
| "descendantsFrom P ps (c # cs) =
     (if isElement c \<and> P (nodeData c) then [Loc ps c cs] else [])
       @ descendants P c @ descendantsFrom P (c # ps) cs"

definition FindAll :: "string \<Rightarrow> loc \<Rightarrow> loc list" where
  "FindAll t e = descendants (\<lambda>x. x = t) (cur e)"

text \<open>FullText concatenates every text node below the element, in document order.\<close>

fun textOf :: "node \<Rightarrow> string" and textOfAll :: "node list \<Rightarrow> string" where
  "textOf (TextNode d) = d"
| "textOf (CommentNode _) = []"
| "textOf (Element _ _ cs) = textOfAll cs"
| "textOfAll [] = []"
| "textOfAll (n # ns) = textOf n @ textOfAll ns"

definition FullText :: "loc \<Rightarrow> string" where
  "FullText e = textOfAll (nodeChildren (cur e))"

text \<open>
  Strings are byte lists, as Go strings are. strings.TrimSpace removes the leading and
  the trailing white space runes of unicode.IsSpace: tab, line feed, vertical tab, form
  feed, carriage return, blank, U+0085, U+00A0, U+1680, U+2000 to U+200A, U+2028,
  U+2029, U+202F, U+205F and U+3000. \<open>spaceRunes\<close> lists their UTF-8 encodings. A
  byte sequence that is not the encoding of one of them decodes to another rune or to
  RuneError, which is not white space.
\<close>

definition spaceRunes :: "string list" where
  "spaceRunes =
     [[CHR 0x09], [CHR 0x0A], [CHR 0x0B], [CHR 0x0C], [CHR 0x0D], [CHR 0x20],
      [CHR 0xC2, CHR 0x85], [CHR 0xC2, CHR 0xA0], [CHR 0xE1, CHR 0x9A, CHR 0x80],
      [CHR 0xE2, CHR 0x80, CHR 0x80], [CHR 0xE2, CHR 0x80, CHR 0x81],
      [CHR 0xE2, CHR 0x80, CHR 0x82], [CHR 0xE2, CHR 0x80, CHR 0x83],
      [CHR 0xE2, CHR 0x80, CHR 0x84], [CHR 0xE2, CHR 0x80, CHR 0x85],
      [CHR 0xE2, CHR 0x80, CHR 0x86], [CHR 0xE2, CHR 0x80, CHR 0x87],
      [CHR 0xE2, CHR 0x80, CHR 0x88], [CHR 0xE2, CHR 0x80, CHR 0x89],
      [CHR 0xE2, CHR 0x80, CHR 0x8A], [CHR 0xE2, CHR 0x80, CHR 0xA8],
      [CHR 0xE2, CHR 0x80, CHR 0xA9], [CHR 0xE2, CHR 0x80, CHR 0xAF],
      [CHR 0xE2, CHR 0x81, CHR 0x9F], [CHR 0xE3, CHR 0x80, CHR 0x80]]"

text \<open>
  \<open>dropRunes rs s\<close> removes from the front of \<open>s\<close> every leading occurrence of a byte
  sequence of \<open>rs\<close>. The trailing white space is the leading white space of the
  reversed string, with every encoding reversed.
\<close>

definition startsWith :: "string \<Rightarrow> string \<Rightarrow> bool" where
  "startsWith s r = (r \<noteq> [] \<and> take (length r) s = r)"

lemma startsWith_shorter:
  assumes "startsWith s r"
  shows "length (drop (length r) s) < length s"
proof -
  from assms have r: "r \<noteq> []" and t: "take (length r) s = r"
    by (simp_all add: startsWith_def)
  from t have "length (take (length r) s) = length r" by simp
  then have "length r \<le> length s" by simp
  with r show ?thesis by (cases r) auto
qed

function dropRunes :: "string list \<Rightarrow> string \<Rightarrow> string" where
  "dropRunes rs s =
     (case find (startsWith s) rs of
        None \<Rightarrow> s
      | Some r \<Rightarrow> dropRunes rs (drop (length r) s))"
  by pat_completeness auto
termination
proof (relation "measure (\<lambda>(rs, s). length s)", goal_cases)
  case 1
  show ?case by simp
next
  case (2 rs s r)
  then have "startsWith s r" by (auto simp: find_Some_iff)
  from startsWith_shorter [OF this] show ?case by simp
qed

declare dropRunes.simps [simp del]

definition TrimSpace :: "string \<Rightarrow> string" where
  "TrimSpace s = rev (dropRunes (map rev spaceRunes) (rev (dropRunes spaceRunes s)))"

text \<open>
  Text returns the data of the first child that is a text node and does not match
  \<^verbatim>\<open>^\s+$\<close>, the empty string when there is none. In a Go regular expression
  \<^verbatim>\<open>\s\<close> is tab, line feed, form feed, carriage return or blank.
\<close>

definition isReSpace :: "char \<Rightarrow> bool" where
  "isReSpace c = (c \<in> set [CHR 0x09, CHR 0x0A, CHR 0x0C, CHR 0x0D, CHR '' ''])"

fun firstText :: "node list \<Rightarrow> string" where
  "firstText [] = []"
| "firstText (TextNode d # ks) =
     (if d \<noteq> [] \<and> list_all isReSpace d then firstText ks else d)"
| "firstText (_ # ks) = firstText ks"

definition Text :: "loc \<Rightarrow> string" where
  "Text e = firstText (nodeChildren (cur e))"

text \<open>Attrs is the map of the attributes; the first of two equal keys wins.\<close>

definition Attrs :: "loc \<Rightarrow> (string \<rightharpoonup> string)" where
  "Attrs e = map_of (nodeAttr (cur e))"

text \<open>
  A panic is a value. The panics of load.go: a nil pointer dereferenced in the library
  (a call on the nil Root), strconv.Atoi failing (\<open>panic(err)\<close>), a slice expression
  out of range, and an index out of range.
\<close>

datatype panic = NilPointer | AtoiError | SliceBounds | IndexRange

text \<open>
  HTML serializes the node with html.Render. The serializer is a parameter \<open>render\<close>:
  \<open>None\<close> is a serialization that reports an error (a malformed subtree), and soup's
  HTML returns the empty string then. On the nil Root html.Render dereferences the nil
  pointer: that is the one panic of HTML.
\<close>

type_synonym renderer = "node \<Rightarrow> string option"

definition htmlOf :: "renderer \<Rightarrow> node \<Rightarrow> string" where
  "htmlOf render n = (case render n of None \<Rightarrow> [] | Some s \<Rightarrow> s)"

fun HTML :: "renderer \<Rightarrow> root \<Rightarrow> panic + string" where
  "HTML render None = Inl NilPointer"
| "HTML render (Some e) = Inr (htmlOf render (cur e))"

text \<open>
  strconv.Atoi: an optional sign, then decimal digits only, and a value that fits 64
  bits; anything else is an error.
\<close>

definition isDigit :: "char \<Rightarrow> bool" where
  "isDigit c = (c \<in> set ''0123456789'')"

definition digitVal :: "char \<Rightarrow> int" where
  "digitVal c = int (of_char c) - 48"

definition digitsVal :: "string \<Rightarrow> int" where
  "digitsVal ds = foldl (\<lambda>v c. 10 * v + digitVal c) 0 ds"

definition Atoi :: "string \<Rightarrow> int option" where
  "Atoi s =
     (let (neg, ds) =
        (case s of
           [] \<Rightarrow> (False, [])
         | c # r \<Rightarrow>
             if c = CHR ''-'' then (True, r)
             else if c = CHR ''+'' then (False, r)
             else (False, s))
      in if ds = [] \<or> \<not> list_all isDigit ds then None
         else
           (let v = (if neg then - digitsVal ds else digitsVal ds)
            in if - (2 ^ 63) \<le> v \<and> v < 2 ^ 63 then Some v else None))"

section \<open>Headings and the backward walk\<close>

text \<open>The regular expression \<^verbatim>\<open>^h[1-6]$\<close> on a tag.\<close>

fun matchesHeadingTag :: "string \<Rightarrow> bool" where
  "matchesHeadingTag [a, b] = (a = CHR ''h'' \<and> b \<in> set ''123456'')"
| "matchesHeadingTag _ = False"

definition isHeading :: "root \<Rightarrow> bool" where
  "isHeading element = matchesHeadingTag (NodeValue element)"

text \<open>
  headingLevel: \<^verbatim>\<open>strconv.Atoi(heading.NodeValue[1:])\<close>, a panic when the conversion
  fails. The slice expression panics on the empty string.
\<close>

definition headingLevel :: "root \<Rightarrow> panic + int" where
  "headingLevel heading =
     (if NodeValue heading = [] then Inl SliceBounds
      else case Atoi (drop 1 (NodeValue heading)) of
             None \<Rightarrow> Inl AtoiError
           | Some level \<Rightarrow> Inr level)"

fun rootSize :: "root \<Rightarrow> nat" where
  "rootSize None = 0"
| "rootSize (Some e) = Suc (length (prevs e))"

lemma prevElementFrom_smaller:
  "prevElementFrom ps c ns = Some e' \<Longrightarrow> length (prevs e') < length ps"
  by (induction ps c ns rule: prevElementFrom.induct) (auto split: if_splits)

lemma rootSize_FindPrev: "rootSize (FindPrevElementSibling e) < rootSize (Some e)"
proof (cases "FindPrevElementSibling e")
  case None
  then show ?thesis by simp
next
  case (Some e')
  then show ?thesis
    using prevElementFrom_smaller [of "prevs e" "cur e" "nexts e" e']
    by (simp add: FindPrevElementSibling_def)
qed

text \<open>
  backtrackToNearestHeader. The arguments of \<open>debug\<close> are evaluated although \<open>debug\<close>
  prints nothing: \<open>element.HTML()\<close> runs for every element that is not a table, and
  \<open>prev.HTML()\<close> runs before the recursive call. With no previous element sibling
  \<open>prev\<close> is the nil Root and \<open>prev.HTML()\<close> dereferences the nil pointer. The
  second \<open>element.HTML()\<close>, in the branch that returns, serializes a node that the first
  call has serialized.
\<close>

function backtrackToNearestHeader :: "renderer \<Rightarrow> root \<Rightarrow> panic + loc" where
  "backtrackToNearestHeader render element =
     (case (if NodeValue element \<noteq> ''table'' then HTML render element else Inr []) of
        Inl p \<Rightarrow> Inl p
      | Inr _ \<Rightarrow>
          (case element of
             None \<Rightarrow> Inl NilPointer
           | Some e \<Rightarrow>
               if matchesHeadingTag (NodeValue element) then Inr e
               else
                 (let prev = FindPrevElementSibling e
                  in case HTML render prev of
                       Inl p \<Rightarrow> Inl p
                     | Inr _ \<Rightarrow> backtrackToNearestHeader render prev)))"
  by pat_completeness auto
termination
  by (relation "measure (\<lambda>(render, element). rootSize element)")
     (auto simp: rootSize_FindPrev simp del: rootSize.simps)

declare backtrackToNearestHeader.simps [simp del]

lemma backtrack_result:
  "backtrackToNearestHeader render element = Inr h \<Longrightarrow>
     matchesHeadingTag (NodeValue (Some h)) \<and> rootSize (Some h) \<le> rootSize element"
proof (induction render element rule: backtrackToNearestHeader.induct)
  case (1 render element)
  show ?case
  proof (cases element)
    case None
    with "1.prems" show ?thesis
      by (simp add: backtrackToNearestHeader.simps [of render None])
  next
    case (Some e)
    show ?thesis
    proof (cases "matchesHeadingTag (NodeValue element)")
      case True
      with "1.prems" Some show ?thesis
        by (auto simp: backtrackToNearestHeader.simps [of render "Some e"]
            split: sum.splits if_splits)
    next
      case False
      from "1.prems" Some False
      obtain x y where ok: "(if NodeValue element \<noteq> ''table'' then HTML render element else Inr []) = Inr x"
        and okp: "HTML render (FindPrevElementSibling e) = Inr y"
        and rec: "backtrackToNearestHeader render (FindPrevElementSibling e) = Inr h"
        by (auto simp: backtrackToNearestHeader.simps [of render "Some e"] Let_def
            split: sum.splits if_splits)
      from "1.IH" [OF ok Some False refl okp rec]
      have "matchesHeadingTag (NodeValue (Some h))"
        and "rootSize (Some h) \<le> rootSize (FindPrevElementSibling e)" by simp_all
      with rootSize_FindPrev [of e] Some show ?thesis by simp
    qed
  qed
qed

text \<open>
  tablePath. \<open>header.NodeValue[1:]\<close> panics on the empty string; the conversion of the
  rest to an integer panics when it fails.
\<close>

function tablePath :: "renderer \<Rightarrow> root \<Rightarrow> int \<Rightarrow> panic + string list" where
  "tablePath render table headingRootLevel =
     (case backtrackToNearestHeader render table of
        Inl p \<Rightarrow> Inl p
      | Inr header \<Rightarrow>
          if NodeValue (Some header) = [] then Inl SliceBounds
          else
            (case Atoi (drop 1 (NodeValue (Some header))) of
               None \<Rightarrow> Inl AtoiError
             | Some level \<Rightarrow>
                 if level \<le> headingRootLevel then Inr [FullText header]
                 else
                   (case tablePath render (FindPrevElementSibling header) headingRootLevel of
                      Inl p \<Rightarrow> Inl p
                    | Inr path \<Rightarrow> Inr (path @ [FullText header]))))"
  by pat_completeness auto
termination
proof (relation "measure (\<lambda>(render, table, level). rootSize table)", goal_cases)
  case 1
  show ?case by simp
next
  case (2 render table headingRootLevel header level)
  from backtrack_result [OF 2(1)] rootSize_FindPrev [of header]
  show ?case by simp
qed

declare tablePath.simps [simp del]

section \<open>Sections\<close>

text \<open>
  The struct types are declared in another file of the package; load.go shows their
  fields. \<open>Path\<close> is a Go slice: the field holds the address of its backing array in a
  store of arrays, because parseDocumentationMarkdownWithRootSectionName writes
  \<open>Path[0]\<close> in place and a Section copied into \<open>Subsections\<close> shares the array of the
  Section it was copied from. A struct copy copies the address. The length of the slice
  is the length of the array: no array is resliced.
\<close>

datatype VariableDefinition =
  VariableDefinition (Name: string) (Description: string) (Type: string) (Default: string)

datatype SectionDefinition =
  SectionDefinition (Path: nat) (Variables: "VariableDefinition list")
    (Subsections: "SectionDefinition list")

type_synonym heap = "string list list"

text \<open>
  Modelled from the spec: the method \<open>Name()\<close> of SectionDefinition is not in load.go.
  The spec: a Section's identity for hierarchy purposes is \<open>Path[last]\<close>. On an empty
  Path the index is out of range. It is \<open>SectionName\<close> here: \<open>Name\<close> is the field of
  VariableDefinition.
\<close>

definition SectionName :: "heap \<Rightarrow> SectionDefinition \<Rightarrow> panic + string" where
  "SectionName h s = (if h ! Path s = [] then Inl IndexRange else Inr (last (h ! Path s)))"

text \<open>arraysEqual: the lengths, then the elements, both sides trimmed.\<close>

fun arraysEqualFrom :: "string list \<Rightarrow> string list \<Rightarrow> bool" where
  "arraysEqualFrom [] b = True"
| "arraysEqualFrom (v # a) b =
     (case b of
        [] \<Rightarrow> False
      | w # b' \<Rightarrow> if TrimSpace v \<noteq> TrimSpace w then False else arraysEqualFrom a b')"

definition arraysEqual :: "string list \<Rightarrow> string list \<Rightarrow> bool" where
  "arraysEqual a b = (if length a \<noteq> length b then False else arraysEqualFrom a b)"

text \<open>tableHeaderCells: the FullText of every \<open>th\<close> below the table.\<close>

fun headerCellsLoop :: "loc list \<Rightarrow> string list \<Rightarrow> string list" where
  "headerCellsLoop [] cells = cells"
| "headerCellsLoop (cell # rest) cells = headerCellsLoop rest (cells @ [FullText cell])"

definition tableHeaderCells :: "loc \<Rightarrow> string list" where
  "tableHeaderCells table = headerCellsLoop (FindAll ''th'' table) []"

text \<open>The loop over the rows of one table in parseDocumentationMarkdown.\<close>

fun rowsLoop :: "loc list \<Rightarrow> VariableDefinition list \<Rightarrow> VariableDefinition list" where
  "rowsLoop [] variables = variables"
| "rowsLoop (row # rows) variables =
     (let cells = FindAll ''td'' row
      in if length cells \<noteq> 4 then rowsLoop rows variables
         else rowsLoop rows
                (variables @
                  [VariableDefinition (FullText (cells ! 0)) (FullText (cells ! 1))
                     (FullText (cells ! 2)) (FullText (cells ! 3))]))"

text \<open>
  The loop over the tables. tablePath returns a slice that nothing else holds (a
  composite literal, or an append to the slice of the recursive call), so the Section
  gets a new array, at the next free address. \<open>table.FindAll("tr")[1:]\<close> panics when
  the table has no row.
\<close>

fun tablesLoop ::
  "renderer \<Rightarrow> int \<Rightarrow> loc list \<Rightarrow> heap \<times> SectionDefinition list \<Rightarrow>
     panic + heap \<times> SectionDefinition list" where
  "tablesLoop render headingRootLevel [] st = Inr st"
| "tablesLoop render headingRootLevel (table # tables) (h, sections) =
     (if \<not> arraysEqual (tableHeaderCells table)
              [''name'', ''description'', ''type'', ''default'']
      then tablesLoop render headingRootLevel tables (h, sections)
      else
        (case tablePath render (Some table) headingRootLevel of
           Inl p \<Rightarrow> Inl p
         | Inr path \<Rightarrow>
             (case FindAll ''tr'' table of
                [] \<Rightarrow> Inl SliceBounds
              | _ # rows \<Rightarrow>
                  tablesLoop render headingRootLevel tables
                    (h @ [path],
                     sections @ [SectionDefinition (length h) (rowsLoop rows []) []]))))"

text \<open>
  AttachSubsections: \<open>section.Path[0]\<close> and \<open>s.Name()\<close> index the Path, a panic when
  it is empty.
\<close>

fun attachLoop ::
  "heap \<Rightarrow> SectionDefinition \<Rightarrow> SectionDefinition list \<Rightarrow> SectionDefinition list \<Rightarrow>
     panic + SectionDefinition list" where
  "attachLoop h s [] subsections = Inr subsections"
| "attachLoop h s (section # rest) subsections =
     (if length (h ! Path section) = 1 then attachLoop h s rest subsections
      else if h ! Path section = [] then Inl IndexRange
      else
        (case SectionName h s of
           Inl p \<Rightarrow> Inl p
         | Inr name \<Rightarrow>
             if (h ! Path section) ! 0 = name
             then attachLoop h s rest (subsections @ [section])
             else attachLoop h s rest subsections))"

definition AttachSubsections ::
  "heap \<Rightarrow> SectionDefinition \<Rightarrow> SectionDefinition list \<Rightarrow> panic + SectionDefinition" where
  "AttachSubsections h s sections =
     (case attachLoop h s sections [] of
        Inl p \<Rightarrow> Inl p
      | Inr subsections \<Rightarrow> Inr (SectionDefinition (Path s) (Variables s) subsections))"

text \<open>
  The second loop of parseDocumentationMarkdown: it writes \<open>sections[i]\<close> while it
  ranges over \<open>sections\<close>, and AttachSubsections reads the list as it is then.
\<close>

function rootsLoop ::
  "heap \<Rightarrow> nat \<Rightarrow> SectionDefinition list \<Rightarrow> panic + SectionDefinition list" where
  "rootsLoop h i sections =
     (if i < length sections then
        (let section = sections ! i
         in if length (h ! Path section) = 1 then
              (case AttachSubsections h section sections of
                 Inl p \<Rightarrow> Inl p
               | Inr s \<Rightarrow> rootsLoop h (Suc i) (sections[i := s]))
            else rootsLoop h (Suc i) sections)
      else Inr sections)"
  by pat_completeness auto
termination
  by (relation "measure (\<lambda>(h, i, sections). length sections - i)") auto

declare rootsLoop.simps [simp del]

text \<open>
  parseDocumentationMarkdown, from the parsed document. It returns the store of the
  Path arrays it made together with the Sections; a panic aborts it.
\<close>

definition parseDocumentationMarkdown ::
  "renderer \<Rightarrow> loc \<Rightarrow> int \<Rightarrow> panic + heap \<times> SectionDefinition list" where
  "parseDocumentationMarkdown render document headingRootLevel =
     (case tablesLoop render headingRootLevel (FindAll ''table'' document) ([], []) of
        Inl p \<Rightarrow> Inl p
      | Inr (h, sections) \<Rightarrow>
          (case rootsLoop h 0 sections of
             Inl p \<Rightarrow> Inl p
           | Inr sections' \<Rightarrow> Inr (h, sections')))"

text \<open>
  parseDocumentationMarkdownWithRootSectionName: \<open>sections[i].Path[0] = rootSectionName\<close>
  writes the array of the Path.
\<close>

fun renameLoop :: "string \<Rightarrow> SectionDefinition list \<Rightarrow> heap \<Rightarrow> panic + heap" where
  "renameLoop rootSectionName [] h = Inr h"
| "renameLoop rootSectionName (s # rest) h =
     (if h ! Path s = [] then Inl IndexRange
      else renameLoop rootSectionName rest (h[Path s := (h ! Path s)[0 := rootSectionName]]))"

definition parseDocumentationMarkdownWithRootSectionName ::
  "renderer \<Rightarrow> loc \<Rightarrow> int \<Rightarrow> string \<Rightarrow> panic + heap \<times> SectionDefinition list" where
  "parseDocumentationMarkdownWithRootSectionName render document headingRootLevel
       rootSectionName =
     (case parseDocumentationMarkdown render document headingRootLevel of
        Inl p \<Rightarrow> Inl p
      | Inr (h, sections) \<Rightarrow>
          (case renameLoop rootSectionName sections h of
             Inl p \<Rightarrow> Inl p
           | Inr h' \<Rightarrow> Inr (h', sections)))"

text \<open>A Section as a value: the Path read from the store, at every level.\<close>

datatype section_value =
  SectionValue (pathV: "string list") (variablesV: "VariableDefinition list")
    (subsectionsV: "section_value list")

fun valueOf :: "heap \<Rightarrow> SectionDefinition \<Rightarrow> section_value" where
  "valueOf h (SectionDefinition a vs subs) = SectionValue (h ! a) vs (map (valueOf h) subs)"

section \<open>Keyword descriptions\<close>

text \<open>
  The first loop of the keyword part of \<open>init\<close>: the headings, tag by tag, each tag's
  elements in document order.
\<close>

fun headingsLoop :: "loc \<Rightarrow> string list \<Rightarrow> loc list \<Rightarrow> loc list" where
  "headingsLoop document [] headings = headings"
| "headingsLoop document (t # ts) headings =
     headingsLoop document ts (headings @ FindAll t document)"

definition headingTags :: "string list" where
  "headingTags = [''h1'', ''h2'', ''h3'', ''h4'', ''h5'', ''h6'']"

text \<open>
  \<^verbatim>\<open>regexp.MustCompile(`^weight-%d+-title-`).ReplaceAllString(anchor, "")\<close>: the
  pattern is anchored at the start, so at most one match is replaced. In a Go regular
  expression \<open>%\<close> and \<open>d\<close> are literal characters: the pattern reads \<open>weight-%\<close>, one
  or more letters \<open>d\<close>, \<open>-title-\<close>.
\<close>

definition stripWeightPrefix :: "string \<Rightarrow> string" where
  "stripWeightPrefix anchor =
     (if take 8 anchor = ''weight-%'' then
        (let ds = takeWhile (\<lambda>c. c = CHR ''d'') (drop 8 anchor);
             rest = dropWhile (\<lambda>c. c = CHR ''d'') (drop 8 anchor)
         in if ds \<noteq> [] \<and> take 7 rest = ''-title-'' then drop 7 rest else anchor)
      else anchor)"

text \<open>
  The slug of a heading's text. slugify.Marshal is a library call: \<open>marshal\<close> stands for
  \<^verbatim>\<open>slugify.Marshal(_, true)\<close>.
\<close>

definition headingAnchor :: "(string \<Rightarrow> string) \<Rightarrow> loc \<Rightarrow> string" where
  "headingAnchor marshal h = stripWeightPrefix (marshal (TrimSpace (Text h)))"

text \<open>
  The second loop: the first heading of the list whose \<open>id\<close> attribute or whose slug
  is the keyword's documentationHeadingSlug; \<open>None\<close> is \<open>found == false\<close>.
\<close>

fun findHeading :: "(string \<Rightarrow> string) \<Rightarrow> string \<Rightarrow> loc list \<Rightarrow> loc option" where
  "findHeading marshal slug [] = None"
| "findHeading marshal slug (h # hs) =
     (if (case Attrs h ''id'' of Some ident \<Rightarrow> ident = slug | None \<Rightarrow> False) then Some h
      else if headingAnchor marshal h = slug then Some h
      else findHeading marshal slug hs)"

definition keywordHeading :: "(string \<Rightarrow> string) \<Rightarrow> string \<Rightarrow> loc \<Rightarrow> loc option" where
  "keywordHeading marshal slug document =
     findHeading marshal slug (headingsLoop document headingTags [])"

text \<open>
  Modelled from the spec: slugify.Marshal is not part of load.go. The spec: lowercase,
  replace runs of non-alphanumeric characters with a single hyphen. \<open>inRun\<close> says that
  the character before was not alphanumeric.
\<close>

definition isAlnum :: "char \<Rightarrow> bool" where
  "isAlnum c =
     (let n = (of_char c :: nat)
      in (48 \<le> n \<and> n \<le> 57) \<or> (65 \<le> n \<and> n \<le> 90) \<or> (97 \<le> n \<and> n \<le> 122))"

definition toLower :: "char \<Rightarrow> char" where
  "toLower c =
     (let n = (of_char c :: nat) in if 65 \<le> n \<and> n \<le> 90 then char_of (n + 32) else c)"

fun hyphenate :: "bool \<Rightarrow> string \<Rightarrow> string" where
  "hyphenate inRun [] = []"
| "hyphenate inRun (c # cs) =
     (if isAlnum c then c # hyphenate False cs
      else if inRun then hyphenate True cs
      else CHR ''-'' # hyphenate True cs)"

definition slugifyLower :: "string \<Rightarrow> string" where
  "slugifyLower s = hyphenate False (map toLower s)"

fun nextSize :: "root \<Rightarrow> nat" where
  "nextSize None = 0"
| "nextSize (Some e) = Suc (length (nexts e))"

lemma nextElementFrom_smaller:
  "nextElementFrom ps c ns = Some e' \<Longrightarrow> length (nexts e') < length ns"
  by (induction ps c ns rule: nextElementFrom.induct) (auto split: if_splits)

lemma nextSize_FindNext: "nextSize (FindNextElementSibling e) < nextSize (Some e)"
proof (cases "FindNextElementSibling e")
  case None
  then show ?thesis by simp
next
  case (Some e')
  then show ?thesis
    using nextElementFrom_smaller [of "prevs e" "cur e" "nexts e" e']
    by (simp add: FindNextElementSibling_def)
qed

text \<open>
  The deferred function of htmlBetweenHeadingAndNextHeading after a panic. \<open>recover\<close>
  stops the panic, and the function returns the zero value of its result, the empty
  string. \<open>DEBUG\<close> is the value of the environment variable: when it is not empty the
  deferred function formats \<open>next.HTML()\<close> for its message, and a panic of that call
  leaves the function as a new panic.
\<close>

definition recovered :: "string \<Rightarrow> renderer \<Rightarrow> root \<Rightarrow> panic + string" where
  "recovered DEBUG render next =
     (if DEBUG \<noteq> [] then (case HTML render next of Inl p \<Rightarrow> Inl p | Inr _ \<Rightarrow> Inr [])
      else Inr [])"

text \<open>
  htmlBetweenHeadingAndNextHeading. A panic before the \<open>defer\<close> (the call on a nil
  \<open>element\<close>, headingLevel) leaves the function; after it, a panic of \<open>next.HTML()\<close>
  or of the recursive call runs the deferred function.
\<close>

function htmlBetweenHeadingAndNextHeading ::
  "string \<Rightarrow> renderer \<Rightarrow> root \<Rightarrow> root \<Rightarrow> panic + string" where
  "htmlBetweenHeadingAndNextHeading DEBUG render heading element =
     (case element of
        None \<Rightarrow> Inl NilPointer
      | Some e \<Rightarrow>
          (let next = FindNextElementSibling e
           in case (if isHeading next
                    then (case headingLevel next of
                            Inl p \<Rightarrow> Inl p
                          | Inr a \<Rightarrow>
                              (case headingLevel heading of
                                 Inl p \<Rightarrow> Inl p
                               | Inr b \<Rightarrow> Inr (a = b)))
                    else Inr False) of
                Inl p \<Rightarrow> Inl p
              | Inr True \<Rightarrow> Inr []
              | Inr False \<Rightarrow>
                  (case HTML render next of
                     Inl _ \<Rightarrow> recovered DEBUG render next
                   | Inr rendered \<Rightarrow>
                       (case htmlBetweenHeadingAndNextHeading DEBUG render heading next of
                          Inl _ \<Rightarrow> recovered DEBUG render next
                        | Inr rest \<Rightarrow> Inr (rendered @ rest)))))"
  by pat_completeness auto
termination
  by (relation "measure (\<lambda>(DEBUG, render, heading, element). nextSize element)")
     (auto simp: nextSize_FindNext simp del: nextSize.simps)

declare htmlBetweenHeadingAndNextHeading.simps [simp del]

section \<open>Vocabulary of the statements\<close>

text \<open>The element siblings after a position, in document order.\<close>

definition elementSiblingsAfter :: "loc \<Rightarrow> node list" where
  "elementSiblingsAfter e = filter isElement (nexts e)"

text \<open>A heading of exactly this level: the test that ends the capture in the code.\<close>

definition headingOfLevel :: "int \<Rightarrow> node \<Rightarrow> bool" where
  "headingOfLevel level n =
     (matchesHeadingTag (nodeData n) \<and> Atoi (drop 1 (nodeData n)) = Some level)"

text \<open>
  A heading whose level is numerically at most this level: the boundary in the words of
  the spec (the next heading of equal or greater prominence).
\<close>

definition headingUpToLevel :: "int \<Rightarrow> node \<Rightarrow> bool" where
  "headingUpToLevel level n =
     (matchesHeadingTag (nodeData n) \<and>
      (case Atoi (drop 1 (nodeData n)) of None \<Rightarrow> False | Some a \<Rightarrow> a \<le> level))"

text \<open>
  The range of the spec: the siblings strictly before the first heading of equal or
  greater prominence.
\<close>

definition specRange :: "int \<Rightarrow> node list \<Rightarrow> node list" where
  "specRange level ns = takeWhile (\<lambda>n. \<not> headingUpToLevel level n) ns"

text \<open>
  The recursion of htmlBetweenHeadingAndNextHeading, read on the list of the element
  siblings after \<open>element\<close>.
\<close>

fun captured :: "string \<Rightarrow> renderer \<Rightarrow> int \<Rightarrow> node list \<Rightarrow> panic + string" where
  "captured DEBUG render level [] = (if DEBUG \<noteq> [] then Inl NilPointer else Inr [])"
| "captured DEBUG render level (n # ns) =
     (if headingOfLevel level n then Inr []
      else case captured DEBUG render level ns of
             Inl _ \<Rightarrow> Inr []
           | Inr rest \<Rightarrow> Inr (htmlOf render n @ rest))"

text \<open>The two tests of the keyword loop on one heading.\<close>

definition headingMatches :: "(string \<Rightarrow> string) \<Rightarrow> string \<Rightarrow> loc \<Rightarrow> bool" where
  "headingMatches marshal slug h =
     ((case Attrs h ''id'' of Some ident \<Rightarrow> ident = slug | None \<Rightarrow> False) \<or>
      headingAnchor marshal h = slug)"

text \<open>
  A leading \<open>weight-<digits>-title-\<close> prefix, in the words of the spec: the pattern
  \<^verbatim>\<open>^weight-\d+-title-\<close>.
\<close>

definition hasWeightTitlePrefix :: "string \<Rightarrow> bool" where
  "hasWeightTitlePrefix s =
     (take 7 s = ''weight-'' \<and> takeWhile isDigit (drop 7 s) \<noteq> [] \<and>
      take 7 (dropWhile isDigit (drop 7 s)) = ''-title-'')"

text \<open>No two hyphens side by side.\<close>

fun singleHyphens :: "string \<Rightarrow> bool" where
  "singleHyphens (a # b # s) = (\<not> (a = CHR ''-'' \<and> b = CHR ''-'') \<and> singleHyphens (b # s))"
| "singleHyphens _ = True"

text \<open>All the headings of levels 1 to 6 below the document node, in document order.\<close>

definition headingsInDocumentOrder :: "loc \<Rightarrow> loc list" where
  "headingsInDocumentOrder document = descendants matchesHeadingTag (cur document)"

text \<open>The headings of one tag, in document order.\<close>

definition headingsOfTag :: "loc \<Rightarrow> string \<Rightarrow> loc list" where
  "headingsOfTag document t =
     filter (\<lambda>e. NodeValue (Some e) = t) (headingsInDocumentOrder document)"

text \<open>
  A table qualifies when the texts of its header cells, trimmed, are the four column
  names in order.
\<close>

definition qualifies :: "loc \<Rightarrow> bool" where
  "qualifies table =
     (map TrimSpace (map FullText (FindAll ''th'' table)) =
        [''name'', ''description'', ''type'', ''default''])"

text \<open>The Variable of a row with four cells, and the Variables of a table's rows.\<close>

definition variableOfCells :: "loc list \<Rightarrow> VariableDefinition" where
  "variableOfCells cells =
     VariableDefinition (FullText (cells ! 0)) (FullText (cells ! 1)) (FullText (cells ! 2))
       (FullText (cells ! 3))"

definition variablesOfTable :: "loc \<Rightarrow> VariableDefinition list" where
  "variablesOfTable table =
     map variableOfCells
       (filter (\<lambda>cells. length cells = 4) (map (FindAll ''td'') (tl (FindAll ''tr'' table))))"

text \<open>A heading element among the siblings before a position.\<close>

definition hasHeadingBefore :: "loc \<Rightarrow> bool" where
  "hasHeadingBefore e = list_ex (\<lambda>n. isElement n \<and> matchesHeadingTag (nodeData n)) (prevs e)"

text \<open>
  The Sections that AttachSubsections collects for a root, and a Section after the
  second loop of parseDocumentationMarkdown.
\<close>

definition subsectionsOf ::
  "heap \<Rightarrow> SectionDefinition list \<Rightarrow> SectionDefinition \<Rightarrow> SectionDefinition list" where
  "subsectionsOf h sections r =
     filter (\<lambda>s. length (h ! Path s) \<noteq> 1 \<and> (h ! Path s) ! 0 = last (h ! Path r)) sections"

definition withSubsections ::
  "heap \<Rightarrow> SectionDefinition list \<Rightarrow> SectionDefinition \<Rightarrow> SectionDefinition" where
  "withSubsections h sections s =
     (if length (h ! Path s) = 1
      then SectionDefinition (Path s) (Variables s) (subsectionsOf h sections s)
      else s)"

text \<open>
  The root-rename transform of the spec on a Section value: \<open>Path[0]\<close> replaced by the
  override, at every level, everything else kept.
\<close>

fun renamed :: "string \<Rightarrow> section_value \<Rightarrow> section_value" where
  "renamed name (SectionValue p vs subs) =
     SectionValue (p[0 := name]) vs (map (renamed name) subs)"

text \<open>
  The invariants of the spec on a list of Sections in a store: only a Section with a
  Path of length 1 has Subsections; a Subsection has the first Path element of its
  root, a Path longer than 1 and no Subsections of its own; the Subsections of a
  Section are a subsequence of the list.
\<close>

definition hierarchyOK :: "heap \<Rightarrow> SectionDefinition list \<Rightarrow> bool" where
  "hierarchyOK h sections =
     (\<forall>r \<in> set sections.
        (Subsections r \<noteq> [] \<longrightarrow> length (h ! Path r) = 1) \<and>
        (\<forall>sub \<in> set (Subsections r).
           (h ! Path sub) ! 0 = (h ! Path r) ! 0 \<and> 1 < length (h ! Path sub) \<and>
           Subsections sub = []) \<and>
        subseq (Subsections r) sections)"

text \<open>Every address of a Section is in the store, at an array that is not empty.\<close>

fun wellAddressed :: "heap \<Rightarrow> SectionDefinition \<Rightarrow> bool" where
  "wellAddressed h (SectionDefinition a vs subs) =
     (a < length h \<and> h ! a \<noteq> [] \<and> (\<forall>s \<in> set subs. wellAddressed h s))"

text \<open>
  The Sections that the first loop of parseDocumentationMarkdown appends for a list of
  qualifying tables, the first of them at address \<open>a\<close>.
\<close>

fun newSections :: "nat \<Rightarrow> loc list \<Rightarrow> SectionDefinition list" where
  "newSections a [] = []"
| "newSections a (t # ts) =
     SectionDefinition a (variablesOfTable t) [] # newSections (Suc a) ts"

section \<open>Sample documents\<close>

text \<open>
  A serializer for the examples: tags, attributes and text written as they are, nothing
  escaped. \<open>plainRender\<close> reports no error.
\<close>

fun serializeAttrs :: "(string \<times> string) list \<Rightarrow> string" where
  "serializeAttrs [] = []"
| "serializeAttrs ((k, v) # as) = '' '' @ k @ ''=\"'' @ v @ ''\"'' @ serializeAttrs as"

fun serialize :: "node \<Rightarrow> string" and serializeAll :: "node list \<Rightarrow> string" where
  "serialize (TextNode d) = d"
| "serialize (CommentNode d) = ''<!--'' @ d @ ''-->''"
| "serialize (Element t as cs) =
     ''<'' @ t @ serializeAttrs as @ ''>'' @ serializeAll cs @ ''</'' @ t @ ''>''"
| "serializeAll [] = []"
| "serializeAll (n # ns) = serialize n @ serializeAll ns"

definition plainRender :: renderer where
  "plainRender n = Some (serialize n)"

definition headingNode :: "string \<Rightarrow> string \<Rightarrow> node" where
  "headingNode t title = Element t [] [TextNode title]"

definition para :: "string \<Rightarrow> node" where
  "para body = Element ''p'' [] [TextNode body]"

definition emptyTable :: node where
  "emptyTable = Element ''table'' [] []"

text \<open>
  A serializer that reports an error on a void element with child nodes, as html.Render
  does, and a line break with a stray child.
\<close>

definition voidElements :: "string list" where
  "voidElements =
     [''area'', ''base'', ''br'', ''col'', ''embed'', ''hr'', ''img'', ''input'', ''keygen'',
      ''link'', ''meta'', ''param'', ''source'', ''track'', ''wbr'']"

fun wellFormed :: "node \<Rightarrow> bool" and wellFormedAll :: "node list \<Rightarrow> bool" where
  "wellFormed (Element t as cs) = ((t \<in> set voidElements \<longrightarrow> cs = []) \<and> wellFormedAll cs)"
| "wellFormed (TextNode _) = True"
| "wellFormed (CommentNode _) = True"
| "wellFormedAll [] = True"
| "wellFormedAll (n # ns) = (wellFormed n \<and> wellFormedAll ns)"



text \<open>
  The spec's example C: \<^verbatim>\<open><h2 id="my-anchor">Title</h2><p>body</p><h2>Next</h2>\<close>,
  at the first heading.
\<close>

definition exampleC :: loc where
  "exampleC =
     Loc [] (Element ''h2'' [(''id'', ''my-anchor'')] [TextNode ''Title''])
       [para ''body'', headingNode ''h2'' ''Next'']"

text \<open>A level 3 heading followed by a level 2 heading and, later, a level 3 heading.\<close>

definition subHeadingDoc :: loc where
  "subHeadingDoc =
     Loc [] (headingNode ''h3'' ''Sub'')
       [para ''a'', TextNode ''nl'', headingNode ''h2'' ''Next'', para ''c'',
        headingNode ''h3'' ''Other'']"


text \<open>A heading that is the last element of the document.\<close>

definition onlyHeading :: loc where
  "onlyHeading = Loc [para ''intro''] (headingNode ''h2'' ''End'') [TextNode ''nl'']"

text \<open>A last heading: the document ends after its paragraphs.\<close>

definition lastHeading :: loc where
  "lastHeading =
     Loc [headingNode ''h1'' ''Top''] (headingNode ''h2'' ''Last'')
       [para ''a'', headingNode ''h3'' ''Deeper'', para ''b'']"

text \<open>A document with the same title at level 2 and, later, at level 1.\<close>

definition twoUsages :: loc where
  "twoUsages =
     Loc [] (Element ''body'' []
       [headingNode ''h2'' ''Usage'', para ''first'', headingNode ''h1'' ''Usage'',
        para ''second''])
       []"

text \<open>
  The heading text of the spec's example D; the dash is U+2014, three bytes in UTF-8.
\<close>

definition exampleDText :: string where
  "exampleDText = ''Weight: 3 '' @ [CHR 0xE2, CHR 0x80, CHR 0x94] @ '' My Thing''"

definition exampleD :: loc where
  "exampleD = Loc [] (headingNode ''h2'' exampleDText) []"

text \<open>A heading whose text starts inside a nested element.\<close>

definition execRules :: loc where
  "execRules =
     Loc [] (Element ''h2'' [] [Element ''code'' [] [TextNode ''exec''], TextNode '' rules'']) []"

text \<open>
  The heading that goldmark makes of a front matter block: the lines
  \<open>weight: 3\<close> and \<open>title: Keywords\<close> above a line of hyphens.
\<close>

definition frontMatterText :: string where
  "frontMatterText = ''weight: 3'' @ [CHR 0x0A] @ ''title: Keywords''"

definition frontMatter :: loc where
  "frontMatter = Loc [Element ''hr'' [] []] (headingNode ''h2'' frontMatterText) []"

text \<open>
  Tables of variables, and a document with three of them and one other table. In the
  header of a table of variables one cell starts with a blank, one ends with a blank and
  one ends with U+00A0.
\<close>

definition cell :: "string \<Rightarrow> string \<Rightarrow> node" where
  "cell t body = Element t [] [TextNode body]"

definition row :: "string \<Rightarrow> string list \<Rightarrow> node" where
  "row t bodies = Element ''tr'' [] (map (cell t) bodies)"

definition variableTable :: "string list list \<Rightarrow> node" where
  "variableTable rows =
     Element ''table'' []
       [Element ''thead'' []
          [row ''th'' [''name'', '' description'', ''type'' @ [CHR 0xC2, CHR 0xA0], ''default '']],
        Element ''tbody'' [] (map (row ''td'') rows)]"

definition generalTable :: node where
  "generalTable = variableTable [[''foo'', ''does x'', ''bool'', ''0''], [''broken'', ''row'', ''int'']]"

definition layoutTable :: node where
  "layoutTable = variableTable [[''gaps'', ''space between'', ''int'', ''5'']]"

definition subTable :: node where
  "subTable = variableTable [[''ratio'', ''split ratio'', ''float'', ''1.0'']]"

definition otherTable :: node where
  "otherTable =
     Element ''table'' []
       [Element ''thead'' [] [row ''th'' [''key'', ''value'']],
        Element ''tbody'' [] [row ''td'' [''a'', ''b'']]]"

definition sectionsBody :: "node list" where
  "sectionsBody =
     [headingNode ''h2'' ''General'', TextNode ''nl'', generalTable,
      headingNode ''h2'' ''Layout'', layoutTable,
      headingNode ''h3'' ''sub'', para ''about sub'', subTable, otherTable]"

definition sectionsDoc :: loc where
  "sectionsDoc = Loc [] (Element ''body'' [] sectionsBody) []"

definition orphanDoc :: loc where
  "orphanDoc = Loc [] (Element ''body'' [] [para ''intro'', generalTable, headingNode ''h2'' ''Late'']) []"

definition sectionsHeap :: heap where
  "sectionsHeap = [[''General''], [''Layout''], [''Layout'', ''sub'']]"

definition subSection :: SectionDefinition where
  "subSection =
     SectionDefinition 2 [VariableDefinition ''ratio'' ''split ratio'' ''float'' ''1.0''] []"

definition sectionsList :: "SectionDefinition list" where
  "sectionsList =
     [SectionDefinition 0 [VariableDefinition ''foo'' ''does x'' ''bool'' ''0''] [],
      SectionDefinition 1 [VariableDefinition ''gaps'' ''space between'' ''int'' ''5'']
        [subSection],
      subSection]"

definition orphanTable :: loc where
  "orphanTable = Loc [para ''intro''] generalTable [headingNode ''h2'' ''Late'']"

section \<open>Properties of the backward walk\<close>

lemma heading_tag_level:
  assumes "matchesHeadingTag s"
  shows "s \<noteq> [] \<and> (\<exists>level. Atoi (drop 1 s) = Some level \<and> 1 \<le> level \<and> level \<le> 6)"
proof -
  from assms obtain b where s: "s = [CHR ''h'', b]" and b: "b \<in> set ''123456''"
    by (cases s rule: matchesHeadingTag.cases) auto
  from b have "Atoi [b] \<in> Some ` {1..6}"
    by (auto simp: Atoi_def isDigit_def digitsVal_def digitVal_def)
  with s show ?thesis by auto
qed

lemma HTML_panics: "HTML render r = Inl p \<Longrightarrow> p = NilPointer"
  by (cases r) auto

lemma backtrack_panics:
  "backtrackToNearestHeader render element = Inl p \<Longrightarrow> p = NilPointer"
proof (induction render element rule: backtrackToNearestHeader.induct)
  case (1 render element)
  show ?case
  proof (cases element)
    case None
    with "1.prems" show ?thesis
      by (simp add: backtrackToNearestHeader.simps [of render None])
  next
    case (Some e)
    note eq = backtrackToNearestHeader.simps [of render "Some e"]
    note prem = "1.prems" [unfolded Some]
    note IH = "1.IH" [unfolded Some, OF _ refl _ refl]
    show ?thesis
    proof (cases "(if NodeValue (Some e) \<noteq> ''table'' then HTML render (Some e) else Inr [])")
      case (Inl q)
      with prem have "p = q" by (simp add: eq)
      with Inl HTML_panics [of render "Some e" q] show ?thesis
        by (auto split: if_splits)
    next
      case (Inr x)
      show ?thesis
      proof (cases "matchesHeadingTag (NodeValue (Some e))")
        case True
        with prem Inr show ?thesis by (simp add: eq)
      next
        case False
        show ?thesis
        proof (cases "HTML render (FindPrevElementSibling e)")
          case (Inl q)
          with prem Inr False have "p = q" by (simp add: eq)
          with Inl HTML_panics show ?thesis by blast
        next
          case Inr2: (Inr y)
          with prem Inr False
          have "backtrackToNearestHeader render (FindPrevElementSibling e) = Inl p"
            by (simp add: eq)
          from IH [OF Inr False Inr2 this] show ?thesis .
        qed
      qed
    qed
  qed
qed

lemma tablePath_panics:
  "tablePath render table headingRootLevel = Inl p \<Longrightarrow> p = NilPointer"
proof (induction render table headingRootLevel rule: tablePath.induct)
  case (1 render table headingRootLevel)
  show ?case
  proof (cases "backtrackToNearestHeader render table")
    case (Inl q)
    with "1.prems" have "p = q"
      by (simp add: tablePath.simps [of render table])
    with Inl backtrack_panics show ?thesis by blast
  next
    case (Inr header)
    from backtrack_result [OF Inr] have "matchesHeadingTag (NodeValue (Some header))" by simp
    from heading_tag_level [OF this] obtain level
      where ne: "NodeValue (Some header) \<noteq> []"
        and lv: "Atoi (drop 1 (NodeValue (Some header))) = Some level" by blast
    show ?thesis
    proof (cases "level \<le> headingRootLevel")
      case True
      with "1.prems" Inr ne lv show ?thesis
        by (simp add: tablePath.simps [of render table])
    next
      case False
      with "1.prems" Inr ne lv
      have "tablePath render (FindPrevElementSibling header) headingRootLevel = Inl p"
        by (simp add: tablePath.simps [of render table] split: sum.splits)
      from "1.IH" [OF Inr ne lv False this] show ?thesis .
    qed
  qed
qed

text \<open>
  C9. Whenever the backward sibling walk returns an element, the tag of that element
  matches \<^verbatim>\<open>^h[1-6]$\<close>. So the tag is not empty and the integer conversion of its
  level digit succeeds, with a level from 1 to 6: headingLevel returns that level for the
  element, and tablePath, which converts the tag of every element the walk returns to
  it, never ends in the panic of the conversion or of the slice expression.
\<close>

theorem backtrack_returns_heading:
  assumes "backtrackToNearestHeader render element = Inr h"
  shows "matchesHeadingTag (NodeValue (Some h)) \<and>
         NodeValue (Some h) \<noteq> [] \<and>
         (\<exists>level. Atoi (drop 1 (NodeValue (Some h))) = Some level \<and>
                  headingLevel (Some h) = Inr level \<and> 1 \<le> level \<and> level \<le> 6) \<and>
         tablePath render element headingRootLevel \<noteq> Inl AtoiError \<and>
         tablePath render element headingRootLevel \<noteq> Inl SliceBounds"
proof -
  from backtrack_result [OF assms] have m: "matchesHeadingTag (NodeValue (Some h))" by simp
  from heading_tag_level [OF m] obtain level
    where ne: "NodeValue (Some h) \<noteq> []"
      and lv: "Atoi (drop 1 (NodeValue (Some h))) = Some level"
      and rg: "1 \<le> level" "level \<le> 6" by blast
  from ne lv have "headingLevel (Some h) = Inr level"
    by (simp add: headingLevel_def)
  moreover from tablePath_panics [of render element headingRootLevel]
  have "tablePath render element headingRootLevel \<noteq> Inl AtoiError"
    and "tablePath render element headingRootLevel \<noteq> Inl SliceBounds" by auto
  ultimately show ?thesis using m ne lv rg by simp
qed

theorem backtrack_returns_heading_witness:
  "backtrackToNearestHeader plainRender
     (Some (Loc [para ''intro'', TextNode ''nl'', headingNode ''h2'' ''General''] emptyTable []))
     = Inr (Loc [] (headingNode ''h2'' ''General'') [TextNode ''nl'', para ''intro'', emptyTable]) \<and>
   matchesHeadingTag ''h2'' \<and>
   headingLevel (Some (Loc [] (headingNode ''h2'' ''General'')
      [TextNode ''nl'', para ''intro'', emptyTable])) = Inr 2 \<and>
   tablePath plainRender
     (Some (Loc [para ''intro'', TextNode ''nl'', headingNode ''h2'' ''General''] emptyTable []))
     2 \<noteq> Inl AtoiError"
proof -
  have ev: "backtrackToNearestHeader plainRender
     (Some (Loc [para ''intro'', TextNode ''nl'', headingNode ''h2'' ''General''] emptyTable []))
     = Inr (Loc [] (headingNode ''h2'' ''General'') [TextNode ''nl'', para ''intro'', emptyTable])"
    by (simp add: backtrackToNearestHeader.simps FindPrevElementSibling_def plainRender_def
        headingNode_def para_def emptyTable_def)
  from backtrack_returns_heading [OF ev, of 2] ev show ?thesis
    by (auto simp: headingNode_def headingLevel_def Atoi_def isDigit_def digitsVal_def digitVal_def)
qed

section \<open>Properties of the range capture\<close>

lemma nextElementFrom_None:
  "nextElementFrom ps c ns = None \<Longrightarrow> filter isElement ns = []"
  by (induction ps c ns rule: nextElementFrom.induct) (auto split: if_splits)

lemma nextElementFrom_Some:
  "nextElementFrom ps c ns = Some e' \<Longrightarrow>
     filter isElement ns = cur e' # filter isElement (nexts e') \<and> isElement (cur e')"
  by (induction ps c ns rule: nextElementFrom.induct) (auto split: if_splits)

lemma FindNext_None:
  "FindNextElementSibling e = None \<Longrightarrow> elementSiblingsAfter e = []"
  by (simp add: FindNextElementSibling_def elementSiblingsAfter_def nextElementFrom_None)

lemma FindNext_Some:
  "FindNextElementSibling e = Some e' \<Longrightarrow>
     elementSiblingsAfter e = cur e' # elementSiblingsAfter e'"
  by (simp add: FindNextElementSibling_def elementSiblingsAfter_def nextElementFrom_Some)

lemma headingLevel_of_heading:
  assumes "isHeading r"
  shows "\<exists>a. headingLevel r = Inr a \<and> Atoi (drop 1 (NodeValue r)) = Some a"
  using heading_tag_level [of "NodeValue r"] assms
  by (auto simp: isHeading_def headingLevel_def)

lemma htmlBetween_captured:
  assumes "headingLevel heading = Inr level"
  shows "htmlBetweenHeadingAndNextHeading DEBUG render heading (Some e) =
           captured DEBUG render level (elementSiblingsAfter e)"
proof (induction "length (nexts e)" arbitrary: e rule: less_induct)
  case less
  note eq = htmlBetweenHeadingAndNextHeading.simps [of DEBUG render heading "Some e"]
  show ?case
  proof (cases "FindNextElementSibling e")
    case None
    then show ?thesis
      by (simp add: eq FindNext_None isHeading_def recovered_def)
  next
    case (Some e')
    from nextSize_FindNext [of e] Some have small: "length (nexts e') < length (nexts e)"
      by simp
    note IH = less [OF small]
    note sib = FindNext_Some [OF Some]
    show ?thesis
    proof (cases "isHeading (Some e')")
      case True
      from headingLevel_of_heading [OF True] obtain a
        where a: "headingLevel (Some e') = Inr a" "Atoi (drop 1 (nodeData (cur e'))) = Some a"
        by auto
      from True a have "headingOfLevel level (cur e') \<longleftrightarrow> a = level"
        by (auto simp: headingOfLevel_def isHeading_def)
      with True a assms Some sib IH show ?thesis
        by (simp add: eq recovered_def Let_def cong: sum.case_cong)
    next
      case False
      then have "\<not> headingOfLevel level (cur e')"
        by (simp add: headingOfLevel_def isHeading_def)
      with False Some sib IH show ?thesis
        by (simp add: eq recovered_def Let_def cong: sum.case_cong)
    qed
  qed
qed

lemma captured_boundary:
  assumes "\<forall>n \<in> set between. \<not> headingOfLevel level n"
    and "headingOfLevel level boundary"
  shows "captured DEBUG render level (between @ boundary # rest) =
           Inr (concat (map (htmlOf render) between))"
  using assms by (induction between) auto

lemma captured_end:
  "captured [] render level ns =
     Inr (concat (map (htmlOf render) (takeWhile (\<lambda>n. \<not> headingOfLevel level n) ns)))"
  by (induction ns) auto


lemma takeWhile_all: "\<forall>x \<in> set xs. P x \<Longrightarrow> takeWhile P xs = xs"
  by (induction xs) auto


lemma htmlOf_Some: "\<forall>n \<in> set ns. render n = Some (markup n) \<Longrightarrow>
    map (htmlOf render) ns = map markup ns"
  by (simp add: htmlOf_def)

lemma sample_levels:
  "Atoi ''1'' = Some 1" "Atoi ''2'' = Some 2" "Atoi ''3'' = Some 3"
  by (simp_all add: Atoi_def isDigit_def digitsVal_def digitVal_def)

text \<open>
  C1 (as amended). For every heading \<open>h\<close> of level \<open>level\<close>, the range capture starting
  at \<open>h\<close> stops at the first following element sibling that is a heading of the same
  level as \<open>h\<close>, and returns the concatenated serialized markup of every element sibling
  strictly between \<open>h\<close> and that boundary heading, in document order, when each of them
  serializes.
\<close>

theorem capture_until_same_level:
  assumes "headingLevel (Some h) = Inr level"
    and "elementSiblingsAfter h = between @ boundary # rest"
    and "headingOfLevel level boundary"
    and "\<forall>n \<in> set between. \<not> headingOfLevel level n \<and> render n = Some (markup n)"
  shows "htmlBetweenHeadingAndNextHeading DEBUG render (Some h) (Some h) =
           Inr (concat (map markup between))"
proof -
  from assms(4) have nb: "\<forall>n \<in> set between. \<not> headingOfLevel level n"
    and ok: "\<forall>n \<in> set between. render n = Some (markup n)" by auto
  from htmlBetween_captured [OF assms(1), of DEBUG render h]
    captured_boundary [OF nb assms(3), of DEBUG render rest] assms(2) htmlOf_Some [OF ok]
  show ?thesis by simp
qed

theorem capture_until_same_level_witness:
  "headingLevel (Some exampleC) = Inr 2 \<and>
   elementSiblingsAfter exampleC = [para ''body''] @ headingNode ''h2'' ''Next'' # [] \<and>
   headingOfLevel 2 (headingNode ''h2'' ''Next'') \<and>
   htmlBetweenHeadingAndNextHeading [] plainRender (Some exampleC) (Some exampleC) =
     Inr ''<p>body</p>''"
proof -
  have lv: "headingLevel (Some exampleC) = Inr 2"
    by (simp add: headingLevel_def exampleC_def sample_levels)
  have sibs: "elementSiblingsAfter exampleC = [para ''body''] @ headingNode ''h2'' ''Next'' # []"
    by (simp add: elementSiblingsAfter_def exampleC_def para_def headingNode_def)
  have b: "headingOfLevel 2 (headingNode ''h2'' ''Next'')"
    by (simp add: headingOfLevel_def headingNode_def sample_levels)
  have ok: "\<forall>n \<in> set [para ''body''].
              \<not> headingOfLevel 2 n \<and> plainRender n = Some (serialize n)"
    by (simp add: plainRender_def headingOfLevel_def para_def)
  from capture_until_same_level [OF lv sibs b ok, of "[]"] lv sibs b show ?thesis
    by (simp add: para_def)
qed

text \<open>
  C1 as stated fails: after a level 3 heading the capture runs through a following
  level 2 heading and the text after it, up to the next level 3 heading, where the
  spec's range ends before the level 2 heading.
\<close>

theorem capture_passes_higher_heading:
  "htmlBetweenHeadingAndNextHeading [] plainRender (Some subHeadingDoc) (Some subHeadingDoc) =
     Inr ''<p>a</p><h2>Next</h2><p>c</p>'' \<and>
   headingLevel (Some subHeadingDoc) = Inr 3 \<and>
   concat (map serialize (specRange 3 (elementSiblingsAfter subHeadingDoc))) = ''<p>a</p>''"
proof -
  have lv: "headingLevel (Some subHeadingDoc) = Inr 3"
    by (simp add: headingLevel_def subHeadingDoc_def headingNode_def sample_levels)
  have "htmlBetweenHeadingAndNextHeading [] plainRender (Some subHeadingDoc) (Some subHeadingDoc) =
     Inr ''<p>a</p><h2>Next</h2><p>c</p>''"
    unfolding htmlBetween_captured [OF lv]
    by (simp add: elementSiblingsAfter_def subHeadingDoc_def htmlOf_def
        headingOfLevel_def para_def headingNode_def sample_levels plainRender_def)
  moreover
  have "concat (map serialize (specRange 3 (elementSiblingsAfter subHeadingDoc))) = ''<p>a</p>''"
    by (simp add: specRange_def elementSiblingsAfter_def subHeadingDoc_def
        headingUpToLevel_def para_def headingNode_def sample_levels)
  ultimately show ?thesis using lv by simp
qed



text \<open>
  With the DEBUG variable empty the capture from a heading returns a string for any
  siblings and any renderer, and when no following element sibling is a heading of the
  level of the heading it returns the markup of all the element siblings up to the end
  of the sibling list: at the nil Root the panic of \<open>next.HTML()\<close> is recovered.
\<close>

lemma capture_to_end_of_document:
  assumes "headingLevel (Some h) = Inr level"
  shows "(\<exists>s. htmlBetweenHeadingAndNextHeading [] render (Some h) (Some h) = Inr s) \<and>
         ((\<forall>n \<in> set (elementSiblingsAfter h).
              \<not> headingOfLevel level n \<and> render n = Some (markup n)) \<longrightarrow>
          htmlBetweenHeadingAndNextHeading [] render (Some h) (Some h) =
            Inr (concat (map markup (elementSiblingsAfter h))))"
proof (intro conjI impI)
  show "\<exists>s. htmlBetweenHeadingAndNextHeading [] render (Some h) (Some h) = Inr s"
    using htmlBetween_captured [OF assms, of "[]" render h] captured_end by simp
next
  assume a: "\<forall>n \<in> set (elementSiblingsAfter h).
               \<not> headingOfLevel level n \<and> render n = Some (markup n)"
  then have tw: "takeWhile (\<lambda>n. \<not> headingOfLevel level n) (elementSiblingsAfter h)
                   = elementSiblingsAfter h"
    by (simp add: takeWhile_all)
  from a have "map (htmlOf render) (elementSiblingsAfter h) = map markup (elementSiblingsAfter h)"
    by (simp add: htmlOf_def)
  with htmlBetween_captured [OF assms, of "[]" render h]
    captured_end [of render level "elementSiblingsAfter h"] tw
  show "htmlBetweenHeadingAndNextHeading [] render (Some h) (Some h) =
          Inr (concat (map markup (elementSiblingsAfter h)))"
    by simp
qed

lemma capture_to_end_of_document_example:
  "htmlBetweenHeadingAndNextHeading [] plainRender (Some lastHeading) (Some lastHeading) =
     Inr ''<p>a</p><h3>Deeper</h3><p>b</p>''"
proof -
  have lv: "headingLevel (Some lastHeading) = Inr 2"
    by (simp add: headingLevel_def lastHeading_def headingNode_def sample_levels)
  show ?thesis
    unfolding htmlBetween_captured [OF lv]
    by (simp add: elementSiblingsAfter_def lastHeading_def htmlOf_def
        headingOfLevel_def para_def headingNode_def sample_levels plainRender_def)
qed

text \<open>
  C10. For a heading after which no boundary heading occurs the claim is that the
  capture ends at the last sibling and returns the markup of all the siblings up to the
  end of the document. With the DEBUG variable set the code does not: the deferred
  function calls \<open>next.HTML()\<close> on the nil Root again, that panic leaves the last call,
  and the recover of the call before it returns the empty string in place of the markup
  it had rendered. The last sibling is lost, and a capture from a heading that is the
  last element leaves htmlBetweenHeadingAndNextHeading as a panic.
\<close>

theorem capture_with_DEBUG_set:
  "htmlBetweenHeadingAndNextHeading ''1'' plainRender (Some lastHeading) (Some lastHeading) =
     Inr ''<p>a</p><h3>Deeper</h3>'' \<and>
   concat (map serialize (elementSiblingsAfter lastHeading)) = ''<p>a</p><h3>Deeper</h3><p>b</p>'' \<and>
   htmlBetweenHeadingAndNextHeading ''1'' plainRender (Some onlyHeading) (Some onlyHeading) =
     Inl NilPointer"
proof -
  have lv: "headingLevel (Some lastHeading) = Inr 2"
    by (simp add: headingLevel_def lastHeading_def headingNode_def sample_levels)
  have lv': "headingLevel (Some onlyHeading) = Inr 2"
    by (simp add: headingLevel_def onlyHeading_def headingNode_def sample_levels)
  have a: "htmlBetweenHeadingAndNextHeading ''1'' plainRender (Some lastHeading) (Some lastHeading) =
     Inr ''<p>a</p><h3>Deeper</h3>''"
    unfolding htmlBetween_captured [OF lv]
    by (simp add: elementSiblingsAfter_def lastHeading_def htmlOf_def
        headingOfLevel_def para_def headingNode_def sample_levels plainRender_def)
  have b: "concat (map serialize (elementSiblingsAfter lastHeading)) =
      ''<p>a</p><h3>Deeper</h3><p>b</p>''"
    by (simp add: elementSiblingsAfter_def lastHeading_def para_def headingNode_def)
  have c: "htmlBetweenHeadingAndNextHeading ''1'' plainRender (Some onlyHeading) (Some onlyHeading) =
     Inl NilPointer"
    unfolding htmlBetween_captured [OF lv']
    by (simp add: elementSiblingsAfter_def onlyHeading_def)
  from a b c show ?thesis by simp
qed

section \<open>Properties of the keyword headings\<close>

lemma descendants_filter:
  assumes "\<And>x. Q x \<Longrightarrow> P x"
  shows "descendants Q n = filter (\<lambda>e. Q (nodeData (cur e))) (descendants P n)"
    and "descendantsFrom Q ps ns = filter (\<lambda>e. Q (nodeData (cur e))) (descendantsFrom P ps ns)"
  using assms
  by (induction P n and P ps ns rule: descendants_descendantsFrom.induct) auto

lemma headingsLoop_concat:
  "headingsLoop document ts acc = acc @ concat (map (\<lambda>t. FindAll t document) ts)"
  by (induction ts arbitrary: acc) auto

lemma findHeading_find:
  "findHeading marshal slug hs = find (headingMatches marshal slug) hs"
  by (induction hs) (auto simp: headingMatches_def split: option.splits)

lemma FindAll_heading_tag:
  assumes "matchesHeadingTag t"
  shows "FindAll t document = headingsOfTag document t"
  using descendants_filter(1) [of "\<lambda>x. x = t" matchesHeadingTag "cur document"] assms
  by (simp add: FindAll_def headingsOfTag_def headingsInDocumentOrder_def)

text \<open>
  C2 (as amended). For a keyword's slug and document, the extractor enumerates all
  heading elements of levels 1 through 6 grouped by level: the level 1 headings in
  document order, then the level 2 headings in document order, and so on to level 6.
  It selects the first heading of that enumeration for which the explicit anchor-id test
  or the derived-slug test succeeds; no heading later in that enumeration is selected
  when an earlier one matches.
\<close>

theorem keyword_heading_by_level:
  "headingsLoop document headingTags [] = concat (map (headingsOfTag document) headingTags) \<and>
   keywordHeading marshal slug document =
     find (headingMatches marshal slug) (concat (map (headingsOfTag document) headingTags))"
proof -
  have "\<forall>t \<in> set headingTags. matchesHeadingTag t" by (simp add: headingTags_def)
  then have eq: "map (\<lambda>t. FindAll t document) headingTags = map (headingsOfTag document) headingTags"
    by (intro map_cong refl) (simp add: FindAll_heading_tag)
  show ?thesis
    unfolding keywordHeading_def findHeading_find headingsLoop_concat eq by simp
qed

theorem keyword_heading_by_level_witness:
  "keywordHeading slugifyLower ''usage'' twoUsages =
     Some (Loc [para ''first'', headingNode ''h2'' ''Usage''] (headingNode ''h1'' ''Usage'')
             [para ''second''])"
proof -
  have "find (headingMatches slugifyLower ''usage'')
          (concat (map (headingsOfTag twoUsages) headingTags)) =
        Some (Loc [para ''first'', headingNode ''h2'' ''Usage''] (headingNode ''h1'' ''Usage'')
                [para ''second''])"
    by code_simp
  with keyword_heading_by_level [of twoUsages slugifyLower "''usage''"] show ?thesis
    by simp
qed

text \<open>
  C2 as stated fails: the level 2 heading comes first in document order and matches,
  and the level 1 heading after it is the one selected.
\<close>

theorem keyword_heading_not_document_order:
  "find (headingMatches slugifyLower ''usage'') (headingsInDocumentOrder twoUsages) =
     Some (Loc [] (headingNode ''h2'' ''Usage'')
             [para ''first'', headingNode ''h1'' ''Usage'', para ''second'']) \<and>
   keywordHeading slugifyLower ''usage'' twoUsages =
     Some (Loc [para ''first'', headingNode ''h2'' ''Usage''] (headingNode ''h1'' ''Usage'')
             [para ''second''])"
  by code_simp

text \<open>
  The pattern as it is written asks for a percent sign: a slug with the prefix
  \<open>weight-3-title-\<close> keeps it, and a prefix spelled with \<open>%d\<close> is removed. The
  heading of a front matter block keeps its prefix.
\<close>

lemma weight_pattern_literal:
  "stripWeightPrefix ''weight-3-title-keywords'' = ''weight-3-title-keywords''"
  "stripWeightPrefix ''weight-%d-title-keywords'' = ''keywords''"
  by (simp_all add: stripWeightPrefix_def)

lemma frontMatter_anchor:
  "headingAnchor slugifyLower frontMatter = ''weight-3-title-keywords''"
proof -
  have t: "Text frontMatter = frontMatterText"
    by (simp add: Text_def frontMatter_def headingNode_def isReSpace_def frontMatterText_def)
  have "TrimSpace frontMatterText = frontMatterText"
    by code_simp
  moreover have "slugifyLower frontMatterText = ''weight-3-title-keywords''"
    by code_simp
  ultimately show ?thesis
    by (simp add: headingAnchor_def t weight_pattern_literal)
qed

text \<open>The slugifier writes lowercase letters, digits and single hyphens.\<close>

lemma percent_no_slug_char: "\<not> isAlnum (CHR ''%'')" "CHR ''%'' \<noteq> CHR ''-''"
  by (simp_all add: isAlnum_def)

lemma hyphenate_chars:
  "c \<in> set (hyphenate inRun s) \<Longrightarrow> c = CHR ''-'' \<or> (isAlnum c \<and> c \<in> set s)"
  by (induction inRun s rule: hyphenate.induct) (auto split: if_splits)

lemma hyphenate_single:
  "singleHyphens (hyphenate inRun s) \<and>
   (inRun \<longrightarrow> hyphenate inRun s = [] \<or> hd (hyphenate inRun s) \<noteq> CHR ''-'')"
proof (induction inRun s rule: hyphenate.induct)
  case (1 inRun)
  show ?case by simp
next
  case (2 inRun c cs)
  have alnum: "\<not> isAlnum (CHR ''-'')" by (simp add: isAlnum_def)
  show ?case
  proof (cases "isAlnum c")
    case True
    with 2 alnum show ?thesis
      by (cases "hyphenate False cs") auto
  next
    case False
    with 2 show ?thesis
      by (cases inRun; cases "hyphenate True cs") auto
  qed
qed

lemma toLower_idem: "toLower (toLower c) = toLower c"
  by (auto simp: toLower_def Let_def)

lemma slugifyLower_chars:
  assumes "c \<in> set (slugifyLower s)"
  shows "c = CHR ''-'' \<or> (isAlnum c \<and> toLower c = c)"
proof -
  from hyphenate_chars [OF assms [unfolded slugifyLower_def]]
  show ?thesis by (auto simp: toLower_idem)
qed

lemma slug_not_stripped: "stripWeightPrefix (slugifyLower s) = slugifyLower s"
proof -
  have "take 8 (slugifyLower s) \<noteq> ''weight-%''"
  proof
    assume eq: "take 8 (slugifyLower s) = ''weight-%''"
    have "CHR ''%'' \<in> set (take 8 (slugifyLower s))" unfolding eq by simp
    then have "CHR ''%'' \<in> set (slugifyLower s)" by (rule in_set_takeD)
    from slugifyLower_chars [OF this] percent_no_slug_char show False by simp
  qed
  then show ?thesis by (simp add: stripWeightPrefix_def)
qed

lemma exampleD_text: "TrimSpace (Text exampleD) = exampleDText"
proof -
  have "Text exampleD = exampleDText"
    by (simp add: Text_def exampleD_def headingNode_def isReSpace_def exampleDText_def)
  moreover have "TrimSpace exampleDText = exampleDText"
    by code_simp
  ultimately show ?thesis by simp
qed

lemma exampleD_slug: "slugifyLower exampleDText = ''weight-3-my-thing''"
  by code_simp

lemma exampleD_anchor: "headingAnchor slugifyLower exampleD = ''weight-3-my-thing''"
proof -
  have "headingAnchor slugifyLower exampleD = stripWeightPrefix ''weight-3-my-thing''"
    unfolding headingAnchor_def exampleD_text exampleD_slug ..
  also have "\<dots> = ''weight-3-my-thing''"
    by (simp add: stripWeightPrefix_def)
  finally show ?thesis .
qed

text \<open>
  C3 (as amended). For every heading without a matching explicit anchor id, the slug is
  derived from the first child of the heading that is a text node and not blank (what
  \<open>Text()\<close> returns, not all of the visible text): it is that text trimmed, lowercased,
  with runs of non-alphanumeric characters replaced by a single hyphen, whenever that
  result has no leading \<open>weight-<digits>-title-\<close> prefix. In particular the heading
  text \<open>Weight: 3 - My Thing\<close> (with the long dash) derives the slug
  \<open>weight-3-my-thing\<close>.
\<close>

theorem heading_anchor_slug:
  assumes "\<not> hasWeightTitlePrefix (slugifyLower (TrimSpace (Text h)))"
  shows "headingAnchor slugifyLower h = slugifyLower (TrimSpace (Text h)) \<and>
         (\<forall>c \<in> set (headingAnchor slugifyLower h).
            c = CHR ''-'' \<or> (isAlnum c \<and> toLower c = c)) \<and>
         singleHyphens (headingAnchor slugifyLower h)"
proof -
  have eq: "headingAnchor slugifyLower h = slugifyLower (TrimSpace (Text h))"
    by (simp add: headingAnchor_def slug_not_stripped)
  moreover have "\<forall>c \<in> set (slugifyLower (TrimSpace (Text h))).
      c = CHR ''-'' \<or> (isAlnum c \<and> toLower c = c)"
    using slugifyLower_chars by blast
  moreover have "singleHyphens (slugifyLower (TrimSpace (Text h)))"
    using hyphenate_single [of False] by (simp add: slugifyLower_def)
  ultimately show ?thesis by simp
qed

theorem heading_anchor_slug_witness:
  "\<not> hasWeightTitlePrefix (slugifyLower (TrimSpace (Text exampleD))) \<and>
   headingAnchor slugifyLower exampleD = ''weight-3-my-thing'' \<and>
   singleHyphens ''weight-3-my-thing''"
proof -
  have h: "\<not> hasWeightTitlePrefix (slugifyLower (TrimSpace (Text exampleD)))"
    unfolding exampleD_text exampleD_slug
    by (simp add: hasWeightTitlePrefix_def isDigit_def)
  from heading_anchor_slug [OF h] h show ?thesis
    by (simp add: exampleD_text exampleD_slug)
qed

text \<open>
  C3 as stated fails. On its own example the derived slug is not \<open>my-thing\<close>. And the
  slug is not derived from the visible text: for the heading
  \<^verbatim>\<open><h2><code>exec</code> rules</h2>\<close> the code derives \<open>rules\<close>, and the
  visible text gives \<open>exec-rules\<close>.
\<close>

theorem heading_anchor_not_as_stated:
  "headingAnchor slugifyLower exampleD = ''weight-3-my-thing'' \<and>
   headingAnchor slugifyLower execRules = ''rules'' \<and>
   slugifyLower (TrimSpace (FullText execRules)) = ''exec-rules''"
proof -
  have t: "Text execRules = '' rules''"
    by (simp add: Text_def execRules_def isReSpace_def)
  have f: "FullText execRules = ''exec rules''"
    by (simp add: FullText_def execRules_def)
  have a: "slugifyLower (TrimSpace '' rules'') = ''rules''"
    by code_simp
  have b: "slugifyLower (TrimSpace ''exec rules'') = ''exec-rules''"
    by code_simp
  have "headingAnchor slugifyLower execRules = ''rules''"
    by (simp add: headingAnchor_def t a stripWeightPrefix_def)
  with exampleD_anchor f b show ?thesis by simp
qed

section \<open>Properties of the section parser\<close>

lemma headerCellsLoop_map: "headerCellsLoop cs acc = acc @ map FullText cs"
  by (induction cs arbitrary: acc) auto

lemma arraysEqualFrom_map:
  "length a = length b \<Longrightarrow> arraysEqualFrom a b = (map TrimSpace a = map TrimSpace b)"
  by (induction a arbitrary: b) (auto split: list.splits)

lemma arraysEqual_map: "arraysEqual a b = (map TrimSpace a = map TrimSpace b)"
proof (cases "length a = length b")
  case True
  then show ?thesis by (simp add: arraysEqual_def arraysEqualFrom_map)
next
  case False
  then have "map TrimSpace a \<noteq> map TrimSpace b"
    by (metis length_map)
  with False show ?thesis by (simp add: arraysEqual_def)
qed

lemma column_names_trimmed:
  "map TrimSpace [''name'', ''description'', ''type'', ''default''] =
     [''name'', ''description'', ''type'', ''default'']"
  by code_simp

lemma arraysEqual_qualifies:
  "arraysEqual (tableHeaderCells table) [''name'', ''description'', ''type'', ''default'']
     = qualifies table"
  unfolding arraysEqual_map column_names_trimmed
  by (simp add: tableHeaderCells_def headerCellsLoop_map qualifies_def)

lemma rowsLoop_map:
  "rowsLoop rows acc =
     acc @ map variableOfCells (filter (\<lambda>cells. length cells = 4) (map (FindAll ''td'') rows))"
  by (induction rows arbitrary: acc) (auto simp: Let_def variableOfCells_def)

lemma tablePath_nonempty:
  "tablePath render table headingRootLevel = Inr path \<Longrightarrow> path \<noteq> []"
  by (subst (asm) tablePath.simps) (auto split: sum.splits option.splits if_splits)

lemma tablesLoop_result:
  "tablesLoop render level ts (h, sections) = Inr (h', sections') \<Longrightarrow>
     \<exists>paths. h' = h @ paths \<and>
       list_all2 (\<lambda>t p. tablePath render (Some t) level = Inr p) (filter qualifies ts) paths \<and>
       sections' = sections @ newSections (length h) (filter qualifies ts) \<and>
       (\<forall>t \<in> set (filter qualifies ts). FindAll ''tr'' t \<noteq> [])"
proof (induction ts arbitrary: h sections)
  case Nil
  then show ?case by simp
next
  case (Cons t ts)
  show ?case
  proof (cases "qualifies t")
    case False
    with Cons.prems have "tablesLoop render level ts (h, sections) = Inr (h', sections')"
      by (simp add: arraysEqual_qualifies)
    from Cons.IH [OF this] False show ?thesis by simp
  next
    case True
    with Cons.prems obtain path r rows where
      p: "tablePath render (Some t) level = Inr path" and
      tr: "FindAll ''tr'' t = r # rows" and
      rec: "tablesLoop render level ts
              (h @ [path], sections @ [SectionDefinition (length h) (rowsLoop rows []) []])
            = Inr (h', sections')"
      by (auto simp: arraysEqual_qualifies split: sum.splits list.splits)
    from Cons.IH [OF rec] obtain paths where
      a: "h' = (h @ [path]) @ paths" and
      b: "list_all2 (\<lambda>t p. tablePath render (Some t) level = Inr p) (filter qualifies ts) paths" and
      c: "sections' = (sections @ [SectionDefinition (length h) (rowsLoop rows []) []]) @
            newSections (length (h @ [path])) (filter qualifies ts)" and
      d: "\<forall>t \<in> set (filter qualifies ts). FindAll ''tr'' t \<noteq> []"
      by blast
    have v: "rowsLoop rows [] = variablesOfTable t"
      by (simp add: rowsLoop_map variablesOfTable_def tr)
    show ?thesis
    proof (intro exI [of _ "path # paths"] conjI)
      show "h' = h @ path # paths" using a by simp
      show "list_all2 (\<lambda>t p. tablePath render (Some t) level = Inr p)
              (filter qualifies (t # ts)) (path # paths)"
        using True p b by simp
      show "sections' = sections @ newSections (length h) (filter qualifies (t # ts))"
        using True c v by simp
      show "\<forall>t \<in> set (filter qualifies (t # ts)). FindAll ''tr'' t \<noteq> []"
        using True d tr by simp
    qed
  qed
qed

lemma attachLoop_filter:
  assumes "h ! Path s \<noteq> []" and "\<forall>x \<in> set sections. h ! Path x \<noteq> []"
  shows "attachLoop h s sections acc = Inr (acc @ subsectionsOf h sections s)"
  using assms(2)
proof (induction sections arbitrary: acc)
  case Nil
  then show ?case by (simp add: subsectionsOf_def)
next
  case (Cons x xs)
  then have IH: "\<And>acc. attachLoop h s xs acc = Inr (acc @ subsectionsOf h xs s)"
    by simp
  from Cons.prems have ne: "h ! Path x \<noteq> []" by simp
  show ?case
    using assms(1) ne by (simp add: IH subsectionsOf_def SectionName_def)
qed

lemma filter_update_same:
  "\<not> P (xs ! i) \<Longrightarrow> \<not> P y \<Longrightarrow> i < length xs \<Longrightarrow> filter P (xs[i := y]) = filter P xs"
proof (induction xs arbitrary: i)
  case Nil
  then show ?case by simp
next
  case (Cons x xs)
  then show ?case by (cases i) auto
qed

lemma rootsLoop_result:
  assumes "\<forall>x \<in> set sections. h ! Path x \<noteq> []" and "i \<le> length sections"
  shows "rootsLoop h i sections =
           Inr (take i sections @ map (withSubsections h sections) (drop i sections))"
  using assms
proof (induction "length sections - i" arbitrary: i sections)
  case 0
  then show ?case by (simp add: rootsLoop.simps [of h i sections])
next
  case (Suc n)
  then have lt: "i < length sections" by simp
  let ?section = "sections ! i"
  from Suc.prems lt have ne: "h ! Path ?section \<noteq> []" by simp
  have dr: "drop i sections = ?section # drop (Suc i) sections"
    using lt by (simp add: Cons_nth_drop_Suc)
  show ?case
  proof (cases "length (h ! Path ?section) = 1")
    case False
    have "n = length sections - Suc i" using Suc.hyps(2) by simp
    from Suc.hyps(1) [OF this Suc.prems(1)] lt
    have "rootsLoop h (Suc i) sections =
            Inr (take (Suc i) sections @ map (withSubsections h sections) (drop (Suc i) sections))"
      by simp
    with False lt show ?thesis
      by (simp add: rootsLoop.simps [of h i sections] dr take_Suc_conv_app_nth
          withSubsections_def)
  next
    case True
    let ?s = "SectionDefinition (Path ?section) (Variables ?section)
                (subsectionsOf h sections ?section)"
    let ?secs = "sections[i := ?s]"
    have att: "AttachSubsections h ?section sections = Inr ?s"
      using attachLoop_filter [OF ne Suc.prems(1), of "[]"]
      by (simp add: AttachSubsections_def)
    have inv: "\<forall>x \<in> set ?secs. h ! Path x \<noteq> []"
    proof
      fix x assume "x \<in> set ?secs"
      then have "x = ?s \<or> x \<in> set sections"
        using set_update_subset_insert [of sections i ?s] by auto
      with ne Suc.prems(1) show "h ! Path x \<noteq> []" by auto
    qed
    have n: "n = length ?secs - Suc i" using Suc.hyps(2) by simp
    have le: "Suc i \<le> length ?secs" using lt by simp
    from Suc.hyps(1) [OF n inv le]
    have rec: "rootsLoop h (Suc i) ?secs =
            Inr (take (Suc i) ?secs @ map (withSubsections h ?secs) (drop (Suc i) ?secs))" .
    have same: "\<And>r. subsectionsOf h ?secs r = subsectionsOf h sections r"
      unfolding subsectionsOf_def
      using True lt by (intro filter_update_same) simp_all
    then have ws: "withSubsections h ?secs = withSubsections h sections"
      by (simp add: withSubsections_def fun_eq_iff)
    have tk: "take (Suc i) ?secs = take i sections @ [?s]"
      using lt by (simp add: take_Suc_conv_app_nth)
    have "withSubsections h sections ?section = ?s"
      using True by (simp add: withSubsections_def)
    with rec att True lt show ?thesis
      by (simp add: rootsLoop.simps [of h i sections] dr ws tk Let_def)
  qed
qed

lemma length_newSections [simp]: "length (newSections a ts) = length ts"
  by (induction ts arbitrary: a) auto

lemma nth_newSections:
  "i < length ts \<Longrightarrow>
     newSections a ts ! i = SectionDefinition (a + i) (variablesOfTable (ts ! i)) []"
proof (induction ts arbitrary: a i)
  case Nil
  then show ?case by simp
next
  case (Cons t ts)
  then show ?case by (cases i) auto
qed

lemma Path_withSubsections [simp]: "Path (withSubsections h fl s) = Path s"
  by (simp add: withSubsections_def)

lemma Variables_withSubsections [simp]: "Variables (withSubsections h fl s) = Variables s"
  by (simp add: withSubsections_def)

text \<open>The shape of a successful parse.\<close>

lemma parse_result:
  assumes "parseDocumentationMarkdown render document level = Inr (h, secs)"
  shows "list_all2 (\<lambda>t p. tablePath render (Some t) level = Inr p)
           (filter qualifies (FindAll ''table'' document)) h"
    and "secs = map (withSubsections h (newSections 0 (filter qualifies (FindAll ''table'' document))))
                  (newSections 0 (filter qualifies (FindAll ''table'' document)))"
    and "\<forall>t \<in> set (filter qualifies (FindAll ''table'' document)). FindAll ''tr'' t \<noteq> []"
proof -
  let ?qs = "filter qualifies (FindAll ''table'' document)"
  from assms obtain flat where
    tl: "tablesLoop render level (FindAll ''table'' document) ([], []) = Inr (h, flat)" and
    rl: "rootsLoop h 0 flat = Inr secs"
    by (auto simp: parseDocumentationMarkdown_def split: sum.splits prod.splits)
  from tablesLoop_result [OF tl]
  have a: "list_all2 (\<lambda>t p. tablePath render (Some t) level = Inr p) ?qs h"
    and b: "flat = newSections 0 ?qs"
    and c: "\<forall>t \<in> set ?qs. FindAll ''tr'' t \<noteq> []"
    by auto
  from a have len: "length h = length ?qs" by (simp add: list_all2_lengthD)
  have ne: "\<forall>x \<in> set flat. h ! Path x \<noteq> []"
  proof
    fix x assume "x \<in> set flat"
    then obtain i where i: "i < length ?qs" and x: "x = flat ! i"
      unfolding b by (metis in_set_conv_nth length_newSections)
    from i a have "tablePath render (Some (?qs ! i)) level = Inr (h ! i)"
      by (simp add: list_all2_conv_all_nth)
    then have "h ! i \<noteq> []" by (rule tablePath_nonempty)
    with i x b show "h ! Path x \<noteq> []" by (simp add: nth_newSections)
  qed
  from rootsLoop_result [OF ne, of 0] rl have "secs = map (withSubsections h flat) flat"
    by simp
  with b show "secs = map (withSubsections h (newSections 0 ?qs)) (newSections 0 ?qs)"
    by simp
  from a show "list_all2 (\<lambda>t p. tablePath render (Some t) level = Inr p) ?qs h" .
  from c show "\<forall>t \<in> set ?qs. FindAll ''tr'' t \<noteq> []" .
qed

lemma parse_sections:
  assumes "parseDocumentationMarkdown render document level = Inr (h, secs)"
  shows "length secs = length (filter qualifies (FindAll ''table'' document))"
    and "length h = length secs"
    and "\<And>i. i < length secs \<Longrightarrow> Path (secs ! i) = i"
    and "\<And>i. i < length secs \<Longrightarrow>
           Variables (secs ! i) =
             variablesOfTable (filter qualifies (FindAll ''table'' document) ! i)"
    and "\<And>i. i < length secs \<Longrightarrow>
           tablePath render (Some (filter qualifies (FindAll ''table'' document) ! i)) level
             = Inr (h ! i)"
    and "\<And>i. i < length secs \<Longrightarrow> h ! i \<noteq> []"
proof -
  let ?qs = "filter qualifies (FindAll ''table'' document)"
  note r = parse_result [OF assms]
  show l: "length secs = length ?qs" by (subst r(2)) simp
  from r(1) show "length h = length secs" by (simp add: l list_all2_lengthD)
  show "Path (secs ! i) = i" if "i < length secs" for i
    using that l by (subst r(2)) (simp add: nth_newSections)
  show "Variables (secs ! i) = variablesOfTable (?qs ! i)" if "i < length secs" for i
    using that l by (subst r(2)) (simp add: nth_newSections)
  show p: "tablePath render (Some (?qs ! i)) level = Inr (h ! i)" if "i < length secs" for i
    using that l r(1) by (simp add: list_all2_conv_all_nth)
  show "h ! i \<noteq> []" if "i < length secs" for i
    using p [OF that] by (rule tablePath_nonempty)
qed

lemma descendants_tag:
  "e \<in> set (descendants P n) \<Longrightarrow> isElement (cur e) \<and> P (nodeData (cur e))"
  "e \<in> set (descendantsFrom P ps ns) \<Longrightarrow> isElement (cur e) \<and> P (nodeData (cur e))"
  by (induction P n and P ps ns rule: descendants_descendantsFrom.induct)
     (auto split: if_splits)

lemma prevElementFrom_in:
  "prevElementFrom ps c ns = Some e' \<Longrightarrow>
     cur e' \<in> set ps \<and> isElement (cur e') \<and> set (prevs e') \<subseteq> set ps"
  by (induction ps c ns rule: prevElementFrom.induct) (auto split: if_splits)

lemma backtrack_found:
  "backtrackToNearestHeader render element = Inr h \<Longrightarrow> element = Some e \<Longrightarrow>
     h = e \<or> (cur h \<in> set (prevs e) \<and> isElement (cur h))"
proof (induction render element arbitrary: e rule: backtrackToNearestHeader.induct)
  case (1 render element)
  note eq = backtrackToNearestHeader.simps [of render "Some e"]
  note prem = "1.prems"(1) [unfolded "1.prems"(2)]
  show ?case
  proof (cases "matchesHeadingTag (NodeValue (Some e))")
    case True
    with prem show ?thesis
      by (auto simp: eq split: sum.splits if_splits)
  next
    case False
    from prem False
    obtain x y where ok: "(if NodeValue (Some e) \<noteq> ''table'' then HTML render (Some e) else Inr []) = Inr x"
      and okp: "HTML render (FindPrevElementSibling e) = Inr y"
      and rec: "backtrackToNearestHeader render (FindPrevElementSibling e) = Inr h"
      by (auto simp: eq Let_def split: sum.splits if_splits)
    from okp obtain e' where e': "FindPrevElementSibling e = Some e'"
      by (cases "FindPrevElementSibling e") auto
    note IH = "1.IH" [unfolded "1.prems"(2), OF ok refl False refl okp rec e']
    from e' have "cur e' \<in> set (prevs e) \<and> isElement (cur e') \<and> set (prevs e') \<subseteq> set (prevs e)"
      by (simp add: FindPrevElementSibling_def prevElementFrom_in)
    with IH show ?thesis by auto
  qed
qed

lemma orphan_tablePath:
  assumes "NodeValue (Some t) = ''table''" and "\<not> hasHeadingBefore t"
  shows "\<exists>p. tablePath render (Some t) level = Inl p"
proof (cases "backtrackToNearestHeader render (Some t)")
  case (Inl p)
  then show ?thesis by (simp add: tablePath.simps [of render "Some t"])
next
  case (Inr h)
  from backtrack_result [OF Inr] have m: "matchesHeadingTag (nodeData (cur h))" by simp
  from backtrack_found [OF Inr refl] have "h = t \<or> (cur h \<in> set (prevs t) \<and> isElement (cur h))" .
  then show ?thesis
  proof
    assume "h = t"
    with m assms(1) show ?thesis by simp
  next
    assume "cur h \<in> set (prevs t) \<and> isElement (cur h)"
    with m have "hasHeadingBefore t"
      by (auto simp: hasHeadingBefore_def list_ex_iff)
    with assms(2) show ?thesis ..
  qed
qed

lemma renameLoop_general:
  assumes "distinct (map Path ss)"
    and "\<forall>s \<in> set ss. Path s < length h \<and> h ! Path s \<noteq> []"
  shows "renameLoop name ss h =
           Inr (map (\<lambda>a. if a \<in> Path ` set ss then (h ! a)[0 := name] else h ! a)
                  [0 ..< length h])"
  using assms
proof (induction ss arbitrary: h)
  case Nil
  then show ?case by (simp add: map_nth)
next
  case (Cons s ss)
  let ?h = "h[Path s := (h ! Path s)[0 := name]]"
  from Cons.prems have notin: "Path s \<notin> Path ` set ss" and d: "distinct (map Path ss)"
    and s: "Path s < length h" "h ! Path s \<noteq> []"
    by auto
  have ok: "\<forall>x \<in> set ss. Path x < length ?h \<and> ?h ! Path x \<noteq> []"
  proof
    fix x assume x: "x \<in> set ss"
    with notin have "Path x \<noteq> Path s" by (metis imageI)
    with x Cons.prems(2) show "Path x < length ?h \<and> ?h ! Path x \<noteq> []" by simp
  qed
  have "map (\<lambda>a. if a \<in> Path ` set ss then (?h ! a)[0 := name] else ?h ! a) [0 ..< length ?h]
      = map (\<lambda>a. if a \<in> Path ` set (s # ss) then (h ! a)[0 := name] else h ! a) [0 ..< length h]"
  proof (rule nth_equalityI, goal_cases)
    case 1
    show ?case by simp
  next
    case (2 i)
    then have i: "i < length h" by simp
    show ?case
    proof (cases "i = Path s")
      case True
      with i notin show ?thesis by simp
    next
      case False
      with i show ?thesis by simp
    qed
  qed
  with Cons.IH [OF d ok] s show ?case by simp
qed

lemma renameLoop_all:
  assumes "length ss = length h"
    and "\<And>i. i < length ss \<Longrightarrow> Path (ss ! i) = i"
    and "\<And>i. i < length ss \<Longrightarrow> h ! i \<noteq> []"
  shows "renameLoop name ss h = Inr (map (\<lambda>p. p[0 := name]) h)"
proof -
  have mp: "map Path ss = [0 ..< length ss]"
    by (rule nth_equalityI) (simp_all add: assms(2))
  then have d: "distinct (map Path ss)" by simp
  have img: "Path ` set ss = {0 ..< length h}"
    using arg_cong [OF mp, of set] assms(1) by simp
  have ok: "\<forall>s \<in> set ss. Path s < length h \<and> h ! Path s \<noteq> []"
  proof
    fix s assume "s \<in> set ss"
    then have "Path s \<in> {0 ..< length h}" using img by blast
    with assms(1,3) show "Path s < length h \<and> h ! Path s \<noteq> []" by simp
  qed
  have "map (\<lambda>a. if a \<in> Path ` set ss then (h ! a)[0 := name] else h ! a) [0 ..< length h]
      = map (\<lambda>p. p[0 := name]) h"
    by (rule nth_equalityI) (simp_all add: img)
  with renameLoop_general [OF d ok, of name] show ?thesis by simp
qed

lemma valueOf_renamed:
  "wellAddressed h s \<Longrightarrow>
     valueOf (map (\<lambda>p. p[0 := name]) h) s = renamed name (valueOf h s)"
  by (induction h s rule: valueOf.induct) simp

lemma flat_sections:
  assumes "parseDocumentationMarkdown render document level = Inr (h, secs)"
    and "f \<in> set (newSections 0 (filter qualifies (FindAll ''table'' document)))"
  shows "Path f < length h" and "h ! Path f \<noteq> []" and "Subsections f = []"
proof -
  let ?qs = "filter qualifies (FindAll ''table'' document)"
  note ps = parse_sections [OF assms(1)]
  from assms(2) obtain i where i: "i < length ?qs" and f: "f = newSections 0 ?qs ! i"
    by (metis in_set_conv_nth length_newSections)
  from i f have p: "Path f = i" and s: "Subsections f = []"
    by (simp_all add: nth_newSections)
  from i ps(1,2) p show "Path f < length h" by simp
  from i ps(1) ps(6) [of i] p show "h ! Path f \<noteq> []" by simp
  from s show "Subsections f = []" .
qed

lemma parsed_section:
  assumes "parseDocumentationMarkdown render document level = Inr (h, secs)"
    and "r \<in> set secs"
  obtains f where "f \<in> set (newSections 0 (filter qualifies (FindAll ''table'' document)))"
    and "r = withSubsections h (newSections 0 (filter qualifies (FindAll ''table'' document))) f"
  using assms(2) unfolding parse_result(2) [OF assms(1)] by auto

lemma subsectionsOf_subset: "set (subsectionsOf h fl r) \<subseteq> set fl"
  by (auto simp: subsectionsOf_def)

lemma parse_wellAddressed:
  assumes "parseDocumentationMarkdown render document level = Inr (h, secs)"
    and "r \<in> set secs"
  shows "wellAddressed h r"
proof -
  let ?fl = "newSections 0 (filter qualifies (FindAll ''table'' document))"
  from parsed_section [OF assms] obtain f where f: "f \<in> set ?fl"
    and r: "r = withSubsections h ?fl f" by blast
  note ff = flat_sections [OF assms(1)]
  have flat: "wellAddressed h x" if "x \<in> set ?fl" for x
    using ff [OF that] by (cases x) simp
  have "wellAddressed h (SectionDefinition (Path f) (Variables f) (subsectionsOf h ?fl f))"
    using ff(1,2) [OF f] flat subsectionsOf_subset [of h ?fl f] by auto
  with flat [OF f] r show ?thesis by (simp add: withSubsections_def)
qed

lemma parse_rename:
  assumes "parseDocumentationMarkdown render document level = Inr (h, secs)"
  shows "parseDocumentationMarkdownWithRootSectionName render document level name =
           Inr (map (\<lambda>p. p[0 := name]) h, secs)"
proof -
  note ps = parse_sections [OF assms]
  have "renameLoop name secs h = Inr (map (\<lambda>p. p[0 := name]) h)"
    by (rule renameLoop_all) (simp_all add: ps)
  with assms show ?thesis
    by (simp add: parseDocumentationMarkdownWithRootSectionName_def)
qed

lemma filter_map_same:
  assumes "\<And>x. x \<in> set xs \<Longrightarrow> Q (g x) = Q x" and "\<And>x. x \<in> set xs \<Longrightarrow> Q x \<Longrightarrow> g x = x"
  shows "filter Q (map g xs) = filter Q xs"
  using assms by (induction xs) auto

lemma subsections_subseq:
  "subseq (subsectionsOf h fl r) (map (withSubsections h fl) fl)"
proof -
  let ?Q = "\<lambda>s. length (h ! Path s) \<noteq> 1 \<and> (h ! Path s) ! 0 = last (h ! Path r)"
  have "filter ?Q (map (withSubsections h fl) fl) = filter ?Q fl"
    by (rule filter_map_same) (simp_all add: withSubsections_def)
  then have "subsectionsOf h fl r = filter ?Q (map (withSubsections h fl) fl)"
    by (simp add: subsectionsOf_def)
  then show ?thesis by simp
qed

lemma parse_hierarchy:
  assumes "parseDocumentationMarkdown render document level = Inr (h, secs)"
    and "r \<in> set secs"
  shows "Subsections r \<noteq> [] \<longrightarrow> length (h ! Path r) = 1"
    and "\<forall>sub \<in> set (Subsections r).
           (h ! Path sub) ! 0 = (h ! Path r) ! 0 \<and> 1 < length (h ! Path sub) \<and>
           Subsections sub = [] \<and> Path sub < length h"
    and "subseq (Subsections r) secs"
    and "Path r < length h" and "h ! Path r \<noteq> []"
proof -
  let ?fl = "newSections 0 (filter qualifies (FindAll ''table'' document))"
  from parsed_section [OF assms] obtain f where f: "f \<in> set ?fl"
    and r: "r = withSubsections h ?fl f" by blast
  note ff = flat_sections [OF assms(1)]
  note secs = parse_result(2) [OF assms(1)]
  from ff(1,2) [OF f] r show "Path r < length h" and "h ! Path r \<noteq> []" by simp_all
  show "Subsections r \<noteq> [] \<longrightarrow> length (h ! Path r) = 1"
    using ff(3) [OF f] r by (simp add: withSubsections_def)
  show "subseq (Subsections r) secs"
  proof (cases "length (h ! Path f) = 1")
    case True
    with r have "Subsections r = subsectionsOf h ?fl f" by (simp add: withSubsections_def)
    then show ?thesis using subsections_subseq [of h ?fl f] secs by simp
  next
    case False
    with r ff(3) [OF f] show ?thesis by (simp add: withSubsections_def)
  qed
  show "\<forall>sub \<in> set (Subsections r).
           (h ! Path sub) ! 0 = (h ! Path r) ! 0 \<and> 1 < length (h ! Path sub) \<and>
           Subsections sub = [] \<and> Path sub < length h"
  proof (cases "length (h ! Path f) = 1")
    case False
    with r ff(3) [OF f] show ?thesis by (simp add: withSubsections_def)
  next
    case True
    then have one: "last (h ! Path f) = (h ! Path f) ! 0"
      by (cases "h ! Path f") auto
    from True r have sr: "Subsections r = subsectionsOf h ?fl f" and pr: "Path r = Path f"
      by (simp_all add: withSubsections_def)
    show ?thesis
    proof
      fix sub assume "sub \<in> set (Subsections r)"
      then have m: "sub \<in> set ?fl" and n1: "length (h ! Path sub) \<noteq> 1"
        and eq: "(h ! Path sub) ! 0 = last (h ! Path f)"
        by (simp_all add: sr subsectionsOf_def)
      from ff(2) [OF m] n1 have "1 < length (h ! Path sub)"
        by (cases "h ! Path sub") auto
      with eq one pr ff(1,3) [OF m]
      show "(h ! Path sub) ! 0 = (h ! Path r) ! 0 \<and> 1 < length (h ! Path sub) \<and>
              Subsections sub = [] \<and> Path sub < length h"
        by simp
    qed
  qed
qed

lemma sectionsDoc_parse:
  "parseDocumentationMarkdown plainRender sectionsDoc 2 = Inr (sectionsHeap, sectionsList)"
  by code_simp

text \<open>
  C5. For every document and root level for which the extraction returns, the Sections
  are, in document order, one for each table whose trimmed header cell texts equal
  name, description, type, default in this order, and none for any other table. The
  Variables of the Section of a qualifying table are, in document order, one for each
  row after the first with exactly 4 cells, with Name, Description, Type and Default the
  texts of the 4 cells in that order; a row with another number of cells is skipped and
  the table stays. The Path of the Section is the path of headings of its table.
\<close>

theorem table_sections:
  assumes "parseDocumentationMarkdown render document level = Inr (h, secs)"
  shows "list_all2
           (\<lambda>table s. Variables s = variablesOfTable table \<and>
                       tablePath render (Some table) level = Inr (h ! Path s))
           (filter qualifies (FindAll ''table'' document)) secs"
  using parse_sections [OF assms]
  by (simp add: list_all2_conv_all_nth)

theorem table_sections_witness:
  "parseDocumentationMarkdown plainRender sectionsDoc 2 = Inr (sectionsHeap, sectionsList) \<and>
   list_all2
     (\<lambda>table s. Variables s = variablesOfTable table \<and>
                 tablePath plainRender (Some table) 2 = Inr (sectionsHeap ! Path s))
     (filter qualifies (FindAll ''table'' sectionsDoc)) sectionsList \<and>
   length (FindAll ''table'' sectionsDoc) = 4 \<and>
   map qualifies (FindAll ''table'' sectionsDoc) = [True, True, True, False] \<and>
   map Variables sectionsList =
     [[VariableDefinition ''foo'' ''does x'' ''bool'' ''0''],
      [VariableDefinition ''gaps'' ''space between'' ''int'' ''5''],
      [VariableDefinition ''ratio'' ''split ratio'' ''float'' ''1.0'']]"
proof -
  have a: "length (FindAll ''table'' sectionsDoc) = 4"
    by code_simp
  have b: "map qualifies (FindAll ''table'' sectionsDoc) = [True, True, True, False]"
    by code_simp
  have c: "map Variables sectionsList =
     [[VariableDefinition ''foo'' ''does x'' ''bool'' ''0''],
      [VariableDefinition ''gaps'' ''space between'' ''int'' ''5''],
      [VariableDefinition ''ratio'' ''split ratio'' ''float'' ''1.0'']]"
    by (simp add: sectionsList_def subSection_def)
  from table_sections [OF sectionsDoc_parse] sectionsDoc_parse a b c show ?thesis
    by blast
qed

text \<open>
  C6. If a qualifying table has no heading element among the siblings before it, the
  backward walk runs off the first sibling and panics, and the whole extraction ends in
  that panic: parseDocumentationMarkdown returns no Section list at all, whatever the
  other tables are, so the failure is not a skip of that table.
\<close>

theorem orphan_table_aborts:
  assumes "t \<in> set (FindAll ''table'' document)"
    and "qualifies t"
    and "\<not> hasHeadingBefore t"
  shows "\<exists>p. parseDocumentationMarkdown render document level = Inl p"
proof (cases "parseDocumentationMarkdown render document level")
  case (Inl p)
  then show ?thesis by blast
next
  case (Inr res)
  obtain h secs where res: "res = (h, secs)" by (cases res)
  from assms(1) have tag: "NodeValue (Some t) = ''table''"
    using descendants_tag(1) [of t "\<lambda>x. x = ''table''" "cur document"]
    by (simp add: FindAll_def)
  let ?qs = "filter qualifies (FindAll ''table'' document)"
  from assms(1,2) have "t \<in> set ?qs" by simp
  then obtain i where i: "i < length ?qs" "?qs ! i = t"
    by (metis in_set_conv_nth)
  from list_all2_nthD [OF parse_result(1) [OF Inr [unfolded res]] i(1)] i(2)
  obtain p where "tablePath render (Some t) level = Inr p"
    by simp
  with orphan_tablePath [OF tag assms(3), of render level] show ?thesis by simp
qed

theorem orphan_table_aborts_witness:
  "orphanTable \<in> set (FindAll ''table'' orphanDoc) \<and>
   qualifies orphanTable \<and>
   \<not> hasHeadingBefore orphanTable \<and>
   (\<exists>p. parseDocumentationMarkdown plainRender orphanDoc 2 = Inl p) \<and>
   parseDocumentationMarkdown plainRender orphanDoc 2 = Inl NilPointer"
proof -
  have a: "orphanTable \<in> set (FindAll ''table'' orphanDoc)"
    by code_simp
  have b: "qualifies orphanTable"
    by code_simp
  have c: "\<not> hasHeadingBefore orphanTable"
    by code_simp
  have d: "parseDocumentationMarkdown plainRender orphanDoc 2 = Inl NilPointer"
    by code_simp
  from orphan_table_aborts [OF a b c, of plainRender 2] a b c d show ?thesis
    by blast
qed

text \<open>
  C7. For every document, root level and override string for which the plain parse
  returns, the root-rename parse returns the same list of Sections, and read through its
  store every Section is the Section of the plain parse with \<open>Path[0]\<close> replaced by
  the override, at the top level and inside the Subsections of a root; the other Path
  elements, the Variables and the structure of the Subsections are unchanged. The first
  Path element of every returned Section and of every Subsection is the override.
\<close>

theorem root_rename:
  assumes "parseDocumentationMarkdown render document level = Inr (h, secs)"
  shows "\<exists>h'. parseDocumentationMarkdownWithRootSectionName render document level name =
                Inr (h', secs) \<and>
              map (valueOf h') secs = map (renamed name) (map (valueOf h) secs) \<and>
              (\<forall>v \<in> set (map (valueOf h') secs).
                 pathV v ! 0 = name \<and> (\<forall>w \<in> set (subsectionsV v). pathV w ! 0 = name))"
proof (intro exI conjI)
  let ?h = "map (\<lambda>p. p[0 := name]) h"
  show "parseDocumentationMarkdownWithRootSectionName render document level name = Inr (?h, secs)"
    by (rule parse_rename [OF assms])
  show "map (valueOf ?h) secs = map (renamed name) (map (valueOf h) secs)"
    using parse_wellAddressed [OF assms] by (simp add: valueOf_renamed)
  have first: "pathV (valueOf ?h s) ! 0 = name" if "wellAddressed h s" for s
    using that by (cases s) simp
  show "\<forall>v \<in> set (map (valueOf ?h) secs).
          pathV v ! 0 = name \<and> (\<forall>w \<in> set (subsectionsV v). pathV w ! 0 = name)"
  proof
    fix v assume "v \<in> set (map (valueOf ?h) secs)"
    then obtain s where s: "s \<in> set secs" and v: "v = valueOf ?h s" by auto
    from parse_wellAddressed [OF assms s] have wa: "wellAddressed h s" .
    obtain a vs subs where sd: "s = SectionDefinition a vs subs" by (cases s)
    from wa sd have subs: "\<forall>x \<in> set subs. wellAddressed h x" by simp
    from first [OF wa] v have "pathV v ! 0 = name" by simp
    moreover have "\<forall>w \<in> set (subsectionsV v). pathV w ! 0 = name"
      using subs first by (auto simp: v sd)
    ultimately show "pathV v ! 0 = name \<and> (\<forall>w \<in> set (subsectionsV v). pathV w ! 0 = name)"
      by simp
  qed
qed

theorem root_rename_witness:
  "parseDocumentationMarkdown plainRender sectionsDoc 2 = Inr (sectionsHeap, sectionsList) \<and>
   (\<exists>h'. parseDocumentationMarkdownWithRootSectionName plainRender sectionsDoc 2 ''Master'' =
            Inr (h', sectionsList) \<and>
          map (valueOf h') sectionsList =
            map (renamed ''Master'') (map (valueOf sectionsHeap) sectionsList) \<and>
          (\<forall>v \<in> set (map (valueOf h') sectionsList).
             pathV v ! 0 = ''Master'' \<and>
             (\<forall>w \<in> set (subsectionsV v). pathV w ! 0 = ''Master''))) \<and>
   parseDocumentationMarkdownWithRootSectionName plainRender sectionsDoc 2 ''Master'' =
     Inr ([[''Master''], [''Master''], [''Master'', ''sub'']], sectionsList) \<and>
   map (valueOf [[''Master''], [''Master''], [''Master'', ''sub'']]) sectionsList =
     [SectionValue [''Master''] [VariableDefinition ''foo'' ''does x'' ''bool'' ''0''] [],
      SectionValue [''Master''] [VariableDefinition ''gaps'' ''space between'' ''int'' ''5'']
        [SectionValue [''Master'', ''sub'']
           [VariableDefinition ''ratio'' ''split ratio'' ''float'' ''1.0''] []],
      SectionValue [''Master'', ''sub'']
        [VariableDefinition ''ratio'' ''split ratio'' ''float'' ''1.0''] []]"
proof -
  have a: "parseDocumentationMarkdownWithRootSectionName plainRender sectionsDoc 2 ''Master'' =
     Inr ([[''Master''], [''Master''], [''Master'', ''sub'']], sectionsList)"
    by code_simp
  have b: "map (valueOf [[''Master''], [''Master''], [''Master'', ''sub'']]) sectionsList =
     [SectionValue [''Master''] [VariableDefinition ''foo'' ''does x'' ''bool'' ''0''] [],
      SectionValue [''Master''] [VariableDefinition ''gaps'' ''space between'' ''int'' ''5'']
        [SectionValue [''Master'', ''sub'']
           [VariableDefinition ''ratio'' ''split ratio'' ''float'' ''1.0''] []],
      SectionValue [''Master'', ''sub'']
        [VariableDefinition ''ratio'' ''split ratio'' ''float'' ''1.0''] []]"
    by (simp add: sectionsList_def subSection_def)
  from root_rename [OF sectionsDoc_parse, of "''Master''"] sectionsDoc_parse a b
  show ?thesis by blast
qed

text \<open>
  C8. In every Section list that the extractor returns, from the plain parse and from
  the root-rename parse, only a Section with a Path of length 1 has Subsections; every
  Section attached as a Subsection under a root has the first Path element of the root
  and a Path longer than 1 (and no Subsections of its own); and the Subsections of a
  root are a subsequence of the list, which is in document order.
\<close>

theorem subsections_hierarchy:
  assumes "parseDocumentationMarkdown render document level = Inr (h, secs)"
  shows "hierarchyOK h secs \<and>
         (\<exists>h'. parseDocumentationMarkdownWithRootSectionName render document level name =
                  Inr (h', secs) \<and> hierarchyOK h' secs)"
proof (intro conjI exI)
  note ph = parse_hierarchy [OF assms]
  show "hierarchyOK h secs"
    unfolding hierarchyOK_def using ph(1,2,3) by blast
  let ?h = "map (\<lambda>p. p[0 := name]) h"
  show "parseDocumentationMarkdownWithRootSectionName render document level name = Inr (?h, secs)"
    by (rule parse_rename [OF assms])
  have len: "length (?h ! a) = length (h ! a)" if "a < length h" for a
    using that by simp
  have first: "(?h ! a) ! 0 = name" if "a < length h" "h ! a \<noteq> []" for a
    using that by simp
  show "hierarchyOK ?h secs"
    unfolding hierarchyOK_def
  proof (intro ballI conjI impI)
    fix r assume r: "r \<in> set secs"
    assume "Subsections r \<noteq> []"
    with ph(1) [OF r] len [OF ph(4) [OF r]] show "length (?h ! Path r) = 1" by simp
  next
    fix r sub assume r: "r \<in> set secs" and sub: "sub \<in> set (Subsections r)"
    from ph(2) [OF r] sub
    have s: "1 < length (h ! Path sub)" "Subsections sub = []" "Path sub < length h"
      by auto
    then have ne: "h ! Path sub \<noteq> []" by auto
    from first [OF s(3) ne] first [OF ph(4,5) [OF r]]
    show "(?h ! Path sub) ! 0 = (?h ! Path r) ! 0" by simp
    from s(1) len [OF s(3)] show "1 < length (?h ! Path sub)" by simp
    from s(2) show "Subsections sub = []" .
  next
    fix r assume r: "r \<in> set secs"
    from ph(3) [OF r] show "subseq (Subsections r) secs" .
  qed
qed

theorem subsections_hierarchy_witness:
  "parseDocumentationMarkdown plainRender sectionsDoc 2 = Inr (sectionsHeap, sectionsList) \<and>
   hierarchyOK sectionsHeap sectionsList \<and>
   (\<exists>h'. parseDocumentationMarkdownWithRootSectionName plainRender sectionsDoc 2 ''Master'' =
            Inr (h', sectionsList) \<and> hierarchyOK h' sectionsList) \<and>
   map Subsections sectionsList = [[], [subSection], []]"
proof -
  have a: "map Subsections sectionsList = [[], [subSection], []]"
    by (simp add: sectionsList_def subSection_def)
  from subsections_hierarchy [OF sectionsDoc_parse, of "''Master''"] sectionsDoc_parse a
  show ?thesis by blast
qed

end
